theory Spec2Isabelle
  imports Complex_Main "HOL-Library.AList" "HOL-Library.Sublist"
begin

section \<open>JSON documents and the object store\<close>

text \<open>
  The embedded program is the extraction server, \<^verbatim>\<open>src/unnamed/part_000\<close>; line numbers are
  those of that file.

  The server keeps every extraction result as a JavaScript object obtained from
  \<^verbatim>\<open>JSON.parse\<close>. Two views of such a value are needed:
  \<^item> \<open>json\<close> is the document itself (what \<^verbatim>\<open>JSON.stringify\<close> writes and
    \<^verbatim>\<open>JSON.parse\<close> reads): a tree. An object is the list of its properties in
    property order; \<^verbatim>\<open>JSON.parse\<close> yields objects with pairwise distinct keys.
  \<^item> \<open>jsval\<close> is a JavaScript value at run time: a primitive, or a reference to an
    object or array of the store. Two references are the same object exactly when
    the addresses are equal, which is what sharing and \<^verbatim>\<open>new Set\<close> observe.
  Numbers are exact rationals: the arithmetic of the merge (a sum and one division) is
  modelled without the rounding of IEEE doubles. The value \<^verbatim>\<open>undefined\<close> never occurs
  inside a JSON document; it is the \<open>None\<close> of a property lookup.
\<close>

datatype json =
    JNull
  | JBool bool
  | JNum rat
  | JStr string
  | JArr "json list"
  | JObj "(string \<times> json) list"

type_synonym addr = nat

datatype jsval =
    VNull
  | VBool bool
  | VNum rat
  | VStr string
  | VRef addr

datatype hobj =
    HObj "(string \<times> jsval) list"
  | HArr "jsval list"

type_synonym heap = "hobj list"

text \<open>
  Errors are values. \<open>TypeError\<close> and \<open>SyntaxError\<close> are the built-in exceptions,
  \<open>Error msg\<close> is \<^verbatim>\<open>new Error(msg)\<close>, \<open>ProviderError\<close> is a rejection of the external
  model call. \<open>OutsideModel\<close> is not a JavaScript exception: the embedding returns it
  where the run leaves what is modelled (a dangling address, which no JavaScript run can
  hold; a named property stored on an array; the string concatenation that \<^verbatim>\<open>+\<close>
  performs on a string or an object).
\<close>

datatype error =
    TypeError
  | SyntaxError
  | Error string
  | ProviderError string
  | OutsideModel

definition cell :: "heap \<Rightarrow> addr \<Rightarrow> hobj option" where
  "cell h a = (if a < length h then Some (h ! a) else None)"

definition alloc :: "heap \<Rightarrow> hobj \<Rightarrow> heap \<times> jsval" where
  "alloc h ob = (h @ [ob], VRef (length h))"

text \<open>
  \<^verbatim>\<open>JSON.parse\<close> builds fresh objects for the document it reads: \<open>JSON_parse_alloc\<close>
  allocates the tree, children before their parent, and returns the reference to the root.
\<close>

function JSON_parse_alloc :: "heap \<Rightarrow> json \<Rightarrow> heap \<times> jsval"
  and JSON_parse_elems :: "heap \<Rightarrow> json list \<Rightarrow> heap \<times> jsval list"
  and JSON_parse_props :: "heap \<Rightarrow> (string \<times> json) list \<Rightarrow> heap \<times> (string \<times> jsval) list"
where
  "JSON_parse_alloc h JNull = (h, VNull)"
| "JSON_parse_alloc h (JBool b) = (h, VBool b)"
| "JSON_parse_alloc h (JNum q) = (h, VNum q)"
| "JSON_parse_alloc h (JStr s) = (h, VStr s)"
| "JSON_parse_alloc h (JArr ts) =
     (case JSON_parse_elems h ts of (h1, vs) \<Rightarrow> alloc h1 (HArr vs))"
| "JSON_parse_alloc h (JObj kts) =
     (case JSON_parse_props h kts of (h1, fs) \<Rightarrow> alloc h1 (HObj fs))"
| "JSON_parse_elems h [] = (h, [])"
| "JSON_parse_elems h (t # ts) =
     (case JSON_parse_alloc h t of (h1, v) \<Rightarrow>
        (case JSON_parse_elems h1 ts of (h2, vs) \<Rightarrow> (h2, v # vs)))"
| "JSON_parse_props h [] = (h, [])"
| "JSON_parse_props h ((k, t) # kts) =
     (case JSON_parse_alloc h t of (h1, v) \<Rightarrow>
        (case JSON_parse_props h1 kts of (h2, fs) \<Rightarrow> (h2, (k, v) # fs)))"
  by pat_completeness auto
termination
  by (relation "measure (\<lambda>x. case x of
          Inl (h, t) \<Rightarrow> size t
        | Inr (Inl (h, ts)) \<Rightarrow> size_list size ts
        | Inr (Inr (h, kts)) \<Rightarrow> size_list (size_prod (\<lambda>_. 0) size) kts)") auto

text \<open>
  \<^verbatim>\<open>JSON.stringify\<close> walks the value and writes its document. On a cyclic structure it
  throws a \<open>TypeError\<close>. \<open>read_json n\<close> follows at most \<open>n\<close> nested references; a chain of
  references without a cycle visits pairwise different cells, so it is no longer than
  the store, and \<open>JSON_stringify\<close> gives the walk that much fuel: \<open>None\<close> is the thrown
  error.
\<close>

fun read_json :: "nat \<Rightarrow> heap \<Rightarrow> jsval \<Rightarrow> json option" where
  "read_json n h VNull = Some JNull"
| "read_json n h (VBool b) = Some (JBool b)"
| "read_json n h (VNum q) = Some (JNum q)"
| "read_json n h (VStr s) = Some (JStr s)"
| "read_json 0 h (VRef a) = None"
| "read_json (Suc n) h (VRef a) =
     (case cell h a of
        None \<Rightarrow> None
      | Some (HArr vs) \<Rightarrow> map_option JArr (those (map (read_json n h) vs))
      | Some (HObj fs) \<Rightarrow>
          map_option JObj
            (those (map (\<lambda>(k, v). map_option (Pair k) (read_json n h v)) fs)))"

definition JSON_stringify :: "heap \<Rightarrow> jsval \<Rightarrow> json option" where
  "JSON_stringify h v = read_json (length h) h v"

subsection \<open>Property access\<close>

text \<open>
  \<open>get_prop h v k\<close> is \<^verbatim>\<open>v[k]\<close> for the property names the merge reads (none of them is
  an array index or \<^verbatim>\<open>length\<close>): reading a property of \<^verbatim>\<open>null\<close> throws, a primitive or
  an array has no such property, an object answers from its own properties.
\<close>

definition get_prop :: "heap \<Rightarrow> jsval \<Rightarrow> string \<Rightarrow> error + jsval option" where
  "get_prop h v k =
     (case v of
        VNull \<Rightarrow> Inl TypeError
      | VRef a \<Rightarrow>
          (case cell h a of
             None \<Rightarrow> Inl OutsideModel
           | Some (HObj fs) \<Rightarrow> Inr (map_of fs k)
           | Some (HArr vs) \<Rightarrow> Inr None)
      | _ \<Rightarrow> Inr None)"

text \<open>
  \<open>set_prop h v k x\<close> is the assignment \<^verbatim>\<open>v[k] = x\<close> in an ES module (strict mode): on a
  primitive or \<^verbatim>\<open>null\<close> it throws; on an object it replaces the value of an existing
  property in place and appends a new property at the end.
\<close>

definition set_prop :: "heap \<Rightarrow> jsval \<Rightarrow> string \<Rightarrow> jsval \<Rightarrow> error + heap" where
  "set_prop h v k x =
     (case v of
        VRef a \<Rightarrow>
          (case cell h a of
             Some (HObj fs) \<Rightarrow> Inr (h[a := HObj (AList.update k x fs)])
           | _ \<Rightarrow> Inl OutsideModel)
      | _ \<Rightarrow> Inl TypeError)"

text \<open>The falsy values among those a lookup in a JSON document can give.\<close>

fun falsy :: "jsval option \<Rightarrow> bool" where
  "falsy None = True"
| "falsy (Some VNull) = True"
| "falsy (Some (VBool b)) = (\<not> b)"
| "falsy (Some (VNum q)) = (q = 0)"
| "falsy (Some (VStr s)) = (s = [])"
| "falsy (Some (VRef a)) = False"

section \<open>ResultMerger: \<^verbatim>\<open>mergeExtractedData\<close>\<close>

text \<open>
  \<^verbatim>\<open>data => data[k] || []\<close> followed by the one-level flattening of \<^verbatim>\<open>flatMap\<close>: a falsy
  or absent property gives no element, an array gives its elements (the very values it
  holds, not copies), any other truthy value is one element.
\<close>

definition flat_prop :: "heap \<Rightarrow> string \<Rightarrow> jsval \<Rightarrow> error + jsval list" where
  "flat_prop h k d =
     (case get_prop h d k of
        Inl e \<Rightarrow> Inl e
      | Inr r \<Rightarrow>
          (if falsy r then Inr []
           else (case r of
                   Some (VRef a) \<Rightarrow>
                     (case cell h a of
                        None \<Rightarrow> Inl OutsideModel
                      | Some (HArr vs) \<Rightarrow> Inr vs
                      | Some (HObj fs) \<Rightarrow> Inr [VRef a])
                 | Some v \<Rightarrow> Inr [v]
                 | None \<Rightarrow> Inr [])))"

fun flatMap_prop :: "heap \<Rightarrow> string \<Rightarrow> jsval list \<Rightarrow> error + jsval list" where
  "flatMap_prop h k [] = Inr []"
| "flatMap_prop h k (d # ds) =
     (case flat_prop h k d of
        Inl e \<Rightarrow> Inl e
      | Inr xs \<Rightarrow>
          (case flatMap_prop h k ds of
             Inl e \<Rightarrow> Inl e
           | Inr ys \<Rightarrow> Inr (xs @ ys)))"

text \<open>\<^verbatim>\<open>d.extraction_confidence?.overall || 0\<close>\<close>

definition overall_or_zero :: "heap \<Rightarrow> jsval \<Rightarrow> error + jsval" where
  "overall_or_zero h d =
     (case get_prop h d ''extraction_confidence'' of
        Inl e \<Rightarrow> Inl e
      | Inr None \<Rightarrow> Inr (VNum 0)
      | Inr (Some VNull) \<Rightarrow> Inr (VNum 0)
      | Inr (Some c) \<Rightarrow>
          (case get_prop h c ''overall'' of
             Inl e \<Rightarrow> Inl e
           | Inr r \<Rightarrow> (if falsy r then Inr (VNum 0) else Inr (the r))))"

text \<open>
  \<^verbatim>\<open>sum + x\<close> with a numeric \<open>sum\<close>: numbers add, \<^verbatim>\<open>true\<close> counts 1, \<^verbatim>\<open>false\<close> and
  \<^verbatim>\<open>null\<close> count 0. On a string or an object JavaScript concatenates strings; that is
  not modelled.
\<close>

fun js_add :: "rat \<Rightarrow> jsval \<Rightarrow> error + rat" where
  "js_add s (VNum q) = Inr (s + q)"
| "js_add s (VBool b) = Inr (s + (if b then 1 else 0))"
| "js_add s VNull = Inr s"
| "js_add s (VStr t) = Inl OutsideModel"
| "js_add s (VRef a) = Inl OutsideModel"

text \<open>\<^verbatim>\<open>arr.reduce((sum, d) => sum + (d.extraction_confidence?.overall || 0), 0)\<close>\<close>

fun reduce_overall :: "heap \<Rightarrow> rat \<Rightarrow> jsval list \<Rightarrow> error + rat" where
  "reduce_overall h s [] = Inr s"
| "reduce_overall h s (d # ds) =
     (case overall_or_zero h d of
        Inl e \<Rightarrow> Inl e
      | Inr x \<Rightarrow>
          (case js_add s x of
             Inl e \<Rightarrow> Inl e
           | Inr s' \<Rightarrow> reduce_overall h s' ds))"

text \<open>
  \<^verbatim>\<open>[...new Set(xs)]\<close>: the first occurrence of every value, in order. Primitives are
  compared by value and objects by reference, as equality on \<open>jsval\<close> does.
\<close>

fun set_spread :: "jsval list \<Rightarrow> jsval list \<Rightarrow> jsval list" where
  "set_spread seen [] = []"
| "set_spread seen (x # xs) =
     (if x \<in> set seen then set_spread seen xs else x # set_spread (x # seen) xs)"

text \<open>
  The merge itself. The store is threaded through; the result is the final store and the
  returned value. \<^verbatim>\<open>merged.line_items.length\<close> reads back the array stored two statements
  before, whose length is that of \<open>items\<close>.
\<close>

definition mergeExtractedData :: "heap \<Rightarrow> jsval list \<Rightarrow> error + heap \<times> jsval" where
  "mergeExtractedData h extractedDataArray =
     (if length extractedDataArray = 0 then Inr (h, VNull)
      else if length extractedDataArray = 1 then Inr (h, extractedDataArray ! 0)
      else
        (case JSON_stringify h (extractedDataArray ! 0) of
           None \<Rightarrow> Inl TypeError
         | Some doc \<Rightarrow>
        (case JSON_parse_alloc h doc of (h1, merged) \<Rightarrow>
        (case flatMap_prop h1 ''line_items'' extractedDataArray of
           Inl e \<Rightarrow> Inl e
         | Inr items \<Rightarrow>
        (case alloc h1 (HArr items) of (h2, line_items) \<Rightarrow>
        (case set_prop h2 merged ''line_items'' line_items of
           Inl e \<Rightarrow> Inl e
         | Inr h3 \<Rightarrow>
        (case reduce_overall h3 0 extractedDataArray of
           Inl e \<Rightarrow> Inl e
         | Inr tot \<Rightarrow>
        (case alloc h3 (HObj
                [(''overall'',
                    (if length extractedDataArray > 0
                     then VNum (tot / of_nat (length extractedDataArray))
                     else VNull)),
                 (''line_items'', VNum (of_nat (length items)))]) of
           (h4, confidence) \<Rightarrow>
        (case set_prop h4 merged ''extraction_confidence'' confidence of
           Inl e \<Rightarrow> Inl e
         | Inr h5 \<Rightarrow>
        (case flatMap_prop h5 ''missing_fields'' extractedDataArray of
           Inl e \<Rightarrow> Inl e
         | Inr allMissingFields \<Rightarrow>
        (case alloc h5 (HArr (set_spread [] allMissingFields)) of
           (h6, missing) \<Rightarrow>
        (case set_prop h6 merged ''missing_fields'' missing of
           Inl e \<Rightarrow> Inl e
         | Inr h7 \<Rightarrow> Inr (h7, merged)))))))))))))"

section \<open>Files, paths and the page source\<close>

text \<open>
  File contents and buffers are byte strings (a \<open>char\<close> is a byte). The file system the
  server touches is a record:
  \<^item> \<open>tempDir\<close> is the absolute path of \<^verbatim>\<open>TEMP_IMAGES_DIR\<close>, that is
    \<^verbatim>\<open>path.join(__dirname, "./temp_images")\<close>; the directory itself exists (the server
    creates it at start-up and again before every conversion);
  \<^item> \<open>temp_files\<close> are its entries (file name and content) in the order
    \<^verbatim>\<open>readdirSync\<close> lists them;
  \<^item> \<open>other_files\<close> are the files outside that directory, by path;
  \<^item> \<open>locked\<close> are the paths whose \<^verbatim>\<open>unlinkSync\<close> fails (a file held open, a missing
    permission);
  \<^item> \<open>convert_calls\<close> records each invocation of the external rasterizer and
    \<open>warnings\<close> each line \<^verbatim>\<open>cleanupTempImages\<close> writes with \<^verbatim>\<open>console.warn\<close>.
\<close>

type_synonym bytes = string

text \<open>
  \<^verbatim>\<open>String.prototype.toLowerCase\<close> and \<^verbatim>\<open>toUpperCase\<close> on the ASCII letters, which is all
  the comparisons with \<^verbatim>\<open>'.pdf'\<close> and with the document type tags can observe.
\<close>

definition toLowerCase :: "string \<Rightarrow> string" where
  "toLowerCase s =
     map (\<lambda>c. let n = (of_char c :: nat) in
                if 65 \<le> n \<and> n \<le> 90 then char_of (n + 32) else c) s"

definition toUpperCase :: "string \<Rightarrow> string" where
  "toUpperCase s =
     map (\<lambda>c. let n = (of_char c :: nat) in
                if 97 \<le> n \<and> n \<le> 122 then char_of (n - 32) else c) s"

text \<open>
  \<^verbatim>\<open>path.extname\<close> of Node.js for POSIX paths: trailing separators are ignored, the
  extension starts at the last dot of the last path component, and there is none when
  that component has no dot, starts with its only dot, or is \<^verbatim>\<open>..\<close>.
  \<^verbatim>\<open>path.join(dir, file)\<close> is used with a directory and a plain file name only.
\<close>

definition path_extname :: "string \<Rightarrow> string" where
  "path_extname p =
     (let trimmed = rev (dropWhile (\<lambda>c. c = CHR ''/'') (rev p));
          base = rev (takeWhile (\<lambda>c. c \<noteq> CHR ''/'') (rev trimmed));
          ext = rev (takeWhile (\<lambda>c. c \<noteq> CHR ''.'') (rev base));
          stem = take (length base - length ext - 1) base
      in if CHR ''.'' \<notin> set base then []
         else if stem = [] then []
         else if base = ''..'' then []
         else CHR ''.'' # ext)"

definition path_join :: "string \<Rightarrow> string \<Rightarrow> string" where
  "path_join dir file = dir @ ''/'' @ file"

record world =
  tempDir :: string
  temp_files :: "(string \<times> bytes) list"
  other_files :: "string \<Rightarrow> bytes option"
  locked :: "string list"
  convert_calls :: "string list"
  warnings :: "string list"

text \<open>\<open>in_temp w p\<close> is the name of the entry of the temp directory that the path \<open>p\<close> denotes.\<close>

definition in_temp :: "world \<Rightarrow> string \<Rightarrow> string option" where
  "in_temp w p =
     (let d = tempDir w @ ''/''; name = drop (length d) p
      in if take (length d) p = d \<and> name \<noteq> [] \<and> CHR ''/'' \<notin> set name
         then Some name else None)"

definition readFileSync :: "world \<Rightarrow> string \<Rightarrow> bytes option" where
  "readFileSync w p =
     (case in_temp w p of
        Some name \<Rightarrow> map_of (temp_files w) name
      | None \<Rightarrow> other_files w p)"

definition existsSync :: "world \<Rightarrow> string \<Rightarrow> bool" where
  "existsSync w p = (readFileSync w p \<noteq> None)"

text \<open>
  \<^verbatim>\<open>fs.unlinkSync\<close> returns the file system afterwards and the error it throws, if any:
  a missing file and a locked file are errors and leave the file system as it is.
\<close>

definition unlinkSync :: "world \<Rightarrow> string \<Rightarrow> world \<times> error option" where
  "unlinkSync w p =
     (if \<not> existsSync w p then (w, Some (Error (''ENOENT: no such file or directory, unlink '' @ p)))
      else if p \<in> set (locked w) then (w, Some (Error (''EPERM: operation not permitted, unlink '' @ p)))
      else (case in_temp w p of
              Some name \<Rightarrow> (w\<lparr>temp_files := filter (\<lambda>e. fst e \<noteq> name) (temp_files w)\<rparr>, None)
            | None \<Rightarrow> (w\<lparr>other_files := (other_files w)(p := None)\<rparr>, None)))"

text \<open>
  \<^verbatim>\<open>isPdfFile\<close> (lines 287-299): the extension is tested first; only then is the file read
  and its first four bytes compared with \<^verbatim>\<open>%PDF\<close>. A file that cannot be read is not a
  PDF (the \<^verbatim>\<open>catch\<close>); a buffer too short has \<^verbatim>\<open>undefined\<close> in place of a byte, which
  equals none.
\<close>

definition isPdfFile :: "world \<Rightarrow> string \<Rightarrow> bool" where
  "isPdfFile w filePath =
     (if toLowerCase (path_extname filePath) \<noteq> ''.pdf'' then False
      else (case readFileSync w filePath of
              None \<Rightarrow> False
            | Some buffer \<Rightarrow> take 4 buffer = [CHR 0x25, CHR 0x50, CHR 0x44, CHR 0x46]))"

text \<open>
  \<^verbatim>\<open>imageToBase64\<close> (lines 99-172). The result keeps the bytes themselves where the source
  has their base64 text, which is a one-to-one encoding of them.
\<close>

definition imageToBase64 :: "world \<Rightarrow> string \<Rightarrow> error + bytes \<times> string" where
  "imageToBase64 w imagePath =
     (if \<not> existsSync w imagePath then Inl (Error (''Image file not found: '' @ imagePath))
      else
        (let imageBuffer = (case readFileSync w imagePath of Some b \<Rightarrow> b | None \<Rightarrow> []);
             isPNG = (take 4 imageBuffer = [CHR 0x89, CHR 0x50, CHR 0x4E, CHR 0x47]);
             isJPEG = (take 3 imageBuffer = [CHR 0xFF, CHR 0xD8, CHR 0xFF]);
             isGIF = (take 4 imageBuffer = [CHR 0x47, CHR 0x49, CHR 0x46, CHR 0x38]);
             isWEBP = (take 4 imageBuffer = [CHR 0x52, CHR 0x49, CHR 0x46, CHR 0x46]
                       \<and> take 4 (drop 8 imageBuffer) = [CHR 0x57, CHR 0x45, CHR 0x42, CHR 0x50]);
             ext = toLowerCase (path_extname imagePath);
             mimeType =
               (if isPNG then ''image/png''
                else if isJPEG then ''image/jpeg''
                else if isGIF then ''image/gif''
                else if isWEBP then ''image/webp''
                else (case map_of [(''.png'', ''image/png''), (''.jpg'', ''image/jpeg''),
                                   (''.jpeg'', ''image/jpeg''), (''.gif'', ''image/gif''),
                                   (''.webp'', ''image/webp'')] ext of
                        Some m \<Rightarrow> m
                      | None \<Rightarrow> ''image/png''))
         in Inr (imageBuffer, mimeType)))"

text \<open>
  What the server calls but does not define:
  \<^item> \<open>pdf_convert\<close> is \<^verbatim>\<open>pdf.convert(pdfPath, options)\<close> of pdf-poppler: from the path and the
    file system to the entries of the temp directory afterwards, and the message of the
    error when the promise rejects;
  \<^item> \<open>chat_create\<close> is \<^verbatim>\<open>openai.chat.completions.create\<close> followed by
    \<^verbatim>\<open>response.choices[0].message.content\<close>: from the number of earlier calls, the
    prompt and the images (MIME type and bytes) to the content text, or \<open>Inl\<close> the message
    of the rejection;
  \<^item> \<open>json_parse\<close> is the grammar of \<^verbatim>\<open>JSON.parse\<close>: \<open>None\<close> is its \<open>SyntaxError\<close>;
  \<^item> the three prompt texts of \<^verbatim>\<open>constants.js\<close>.
\<close>

record externals =
  pdf_convert :: "string \<Rightarrow> world \<Rightarrow> (string \<times> bytes) list \<times> string option"
  chat_create :: "nat \<Rightarrow> string \<Rightarrow> (string \<times> bytes) list \<Rightarrow> string + string"
  json_parse :: "string \<Rightarrow> json option"
  HBLPROMPT :: string
  COMMERCIAL_INVOICE_PROMPT :: string
  MBL_PROMPT :: string

definition getPromptForDocumentType :: "externals \<Rightarrow> string option \<Rightarrow> string" where
  "getPromptForDocumentType ext documentType =
     (case map_option toUpperCase documentType of
        None \<Rightarrow> MBL_PROMPT ext
      | Some t \<Rightarrow>
          (if t = ''COMMERCIAL_INVOICE'' \<or> t = ''INVOICE'' then COMMERCIAL_INVOICE_PROMPT ext
           else if t = ''HBL'' then HBLPROMPT ext
           else if t = ''MBL'' then MBL_PROMPT ext
           else MBL_PROMPT ext))"

text \<open>
  \<^verbatim>\<open>convertPdfToImages\<close> (lines 179-216): one call of the rasterizer, then the listing of the
  temp directory, filtered to \<^verbatim>\<open>page*.png\<close>, sorted by the first run of digits in the name
  (\<^verbatim>\<open>Array.prototype.sort\<close> is stable, as \<open>sort_key\<close> is) and joined with the directory.
  A rejection is rethrown as \<^verbatim>\<open>new Error("Failed to convert PDF to images: " + message)\<close>.
\<close>

definition is_digit :: "char \<Rightarrow> bool" where
  "is_digit c = (let n = (of_char c :: nat) in 48 \<le> n \<and> n \<le> 57)"

definition page_number :: "string \<Rightarrow> nat" where
  "page_number name =
     foldl (\<lambda>n c. 10 * n + (of_char c - 48)) 0
       (takeWhile is_digit (dropWhile (\<lambda>c. \<not> is_digit c) name))"

definition is_page_png :: "string \<Rightarrow> bool" where
  "is_page_png file = (prefix ''page'' file \<and> suffix ''.png'' file)"

definition convertPdfToImages :: "externals \<Rightarrow> world \<Rightarrow> string \<Rightarrow> world \<times> (error + string list)" where
  "convertPdfToImages ext w pdfPath =
     (case pdf_convert ext pdfPath w of
        (entries, rejected) \<Rightarrow>
          (let w' = w\<lparr>temp_files := entries, convert_calls := convert_calls w @ [pdfPath]\<rparr>
           in case rejected of
                Some msg \<Rightarrow> (w', Inl (Error (''Failed to convert PDF to images: '' @ msg)))
              | None \<Rightarrow>
                  (w', Inr (map (path_join (tempDir w'))
                             (sort_key page_number
                                (filter is_page_png (map fst (temp_files w'))))))))"

text \<open>
  \<^verbatim>\<open>cleanupTempImages\<close> (lines 258-280). Both loops run inside one \<^verbatim>\<open>try\<close>: the first error
  thrown by \<^verbatim>\<open>unlinkSync\<close> ends them, and the \<^verbatim>\<open>catch\<close> writes a warning and returns.
  \<open>unlink_existing\<close> is the first \<^verbatim>\<open>forEach\<close> (a missing file is skipped), \<open>unlink_pages\<close>
  the second, over the listing taken before it starts.
\<close>

fun unlink_existing :: "world \<Rightarrow> string list \<Rightarrow> world \<times> error option" where
  "unlink_existing w [] = (w, None)"
| "unlink_existing w (imagePath # rest) =
     (if existsSync w imagePath
      then (case unlinkSync w imagePath of
              (w', Some e) \<Rightarrow> (w', Some e)
            | (w', None) \<Rightarrow> unlink_existing w' rest)
      else unlink_existing w rest)"

fun unlink_pages :: "world \<Rightarrow> string list \<Rightarrow> world \<times> error option" where
  "unlink_pages w [] = (w, None)"
| "unlink_pages w (file # rest) =
     (if is_page_png file
      then (case unlinkSync w (path_join (tempDir w) file) of
              (w', Some e) \<Rightarrow> (w', Some e)
            | (w', None) \<Rightarrow> unlink_pages w' rest)
      else unlink_pages w rest)"

fun error_message :: "error \<Rightarrow> string" where
  "error_message (Error msg) = msg"
| "error_message (ProviderError msg) = msg"
| "error_message TypeError = ''TypeError''"
| "error_message SyntaxError = ''SyntaxError''"
| "error_message OutsideModel = ''''"

definition cleanupTempImages :: "world \<Rightarrow> string list \<Rightarrow> world" where
  "cleanupTempImages w imagePaths =
     (case unlink_existing w imagePaths of
        (w1, Some e) \<Rightarrow>
          w1\<lparr>warnings := warnings w1 @ [''Warning: Could not clean up temp images: '' @ error_message e]\<rparr>
      | (w1, None) \<Rightarrow>
          (case unlink_pages w1 (map fst (temp_files w1)) of
             (w2, Some e) \<Rightarrow>
               w2\<lparr>warnings := warnings w2 @ [''Warning: Could not clean up temp images: '' @ error_message e]\<rparr>
           | (w2, None) \<Rightarrow> w2))"

section \<open>Batcher, ExtractionClient and the request: \<^verbatim>\<open>extractDataWithOpenAI\<close>\<close>

text \<open>
  \<^verbatim>\<open>Array.prototype.slice(start, end)\<close> on integers: a negative index counts from the end,
  and both are clamped to the array.
\<close>

definition js_slice :: "'a list \<Rightarrow> int \<Rightarrow> int \<Rightarrow> 'a list" where
  "js_slice xs start stop =
     (let len = int (length xs);
          k = (if start < 0 then max (len + start) 0 else min start len);
          final = (if stop < 0 then max (len + stop) 0 else min stop len)
      in take (nat (final - k)) (drop (nat k) xs))"

text \<open>
  The partition loop of lines 338-341,
  \<^verbatim>\<open>for (let i = 0; i < allImagePaths.length; i += batchSize) batches.push(allImagePaths.slice(i, i + batchSize))\<close>,
  with an integer \<open>batchSize\<close>. Nothing bounds the number of iterations, so the
  loop is a partial function: \<open>None\<close> is a run that never leaves the loop.
\<close>

partial_function (option) partition_loop ::
  "'a list \<Rightarrow> int \<Rightarrow> int \<Rightarrow> 'a list list \<Rightarrow> 'a list list option" where
  "partition_loop allImagePaths batchSize i batches =
     (if i < int (length allImagePaths)
      then partition_loop allImagePaths batchSize (i + batchSize)
             (batches @ [js_slice allImagePaths i (i + batchSize)])
      else Some batches)"

declare partition_loop.simps [code]

text \<open>
  \<^verbatim>\<open>const batchSize = req.body.batchSize || 5\<close> of the route \<^verbatim>\<open>/api/extract\<close> (line 500),
  for an absent or an integer value.
\<close>

definition request_batchSize :: "int option \<Rightarrow> int" where
  "request_batchSize b = (case b of None \<Rightarrow> 5 | Some n \<Rightarrow> if n = 0 then 5 else n)"

text \<open>The \<^verbatim>\<open>batch.map(...)\<close> of lines 350-367: the first exception ends it.\<close>

fun image_contents :: "world \<Rightarrow> string list \<Rightarrow> error + (string \<times> bytes) list" where
  "image_contents w [] = Inr []"
| "image_contents w (imagePath # rest) =
     (case imageToBase64 w imagePath of
        Inl e \<Rightarrow> Inl e
      | Inr (base64, mimeType) \<Rightarrow>
          (if mimeType \<notin> set [''image/png'', ''image/jpeg'', ''image/gif'', ''image/webp'']
           then Inl (Error (''Invalid MIME type detected: '' @ mimeType))
           else (case image_contents w rest of
                   Inl e \<Rightarrow> Inl e
                 | Inr cs \<Rightarrow> Inr ((mimeType, base64) # cs))))"

text \<open>
  The loop over the batches (lines 345-390): one model call per batch, in order; the
  parsed answer is a fresh object of the store. Any exception ends the loop.
\<close>

fun process_batches ::
  "externals \<Rightarrow> world \<Rightarrow> string \<Rightarrow> heap \<Rightarrow> nat \<Rightarrow> string list list \<Rightarrow> jsval list
     \<Rightarrow> error + heap \<times> jsval list" where
  "process_batches ext w extractionPrompt h batchIndex [] allExtractedData =
     Inr (h, allExtractedData)"
| "process_batches ext w extractionPrompt h batchIndex (batch # rest) allExtractedData =
     (case image_contents w batch of
        Inl e \<Rightarrow> Inl e
      | Inr imageContents \<Rightarrow>
          (case chat_create ext batchIndex extractionPrompt imageContents of
             Inl msg \<Rightarrow> Inl (ProviderError msg)
           | Inr outputText \<Rightarrow>
               (case json_parse ext outputText of
                  None \<Rightarrow> Inl SyntaxError
                | Some doc \<Rightarrow>
                    (case JSON_parse_alloc h doc of
                       (h', extractedData) \<Rightarrow>
                         process_batches ext w extractionPrompt h' (batchIndex + 1) rest
                           (allExtractedData @ [extractedData])))))"

text \<open>
  The loop over the input files (lines 315-325). The result carries the file system, the
  two lists \<^verbatim>\<open>allImagePaths\<close> and \<^verbatim>\<open>allTempImagePaths\<close> as they are when the loop ends, and
  the exception that ended it, if any.
\<close>

fun expand_files ::
  "externals \<Rightarrow> world \<Rightarrow> string list \<Rightarrow> string list \<Rightarrow> string list
     \<Rightarrow> world \<times> string list \<times> string list \<times> error option" where
  "expand_files ext w [] allImagePaths allTempImagePaths =
     (w, allImagePaths, allTempImagePaths, None)"
| "expand_files ext w (filePath # rest) allImagePaths allTempImagePaths =
     (if isPdfFile w filePath
      then (case convertPdfToImages ext w filePath of
              (w', Inl e) \<Rightarrow> (w', allImagePaths, allTempImagePaths, Some e)
            | (w', Inr pdfImages) \<Rightarrow>
                expand_files ext w' rest (allImagePaths @ pdfImages)
                  (allTempImagePaths @ pdfImages))
      else expand_files ext w rest (allImagePaths @ [filePath]) allTempImagePaths)"

text \<open>
  The \<^verbatim>\<open>try\<close> block of \<^verbatim>\<open>extractDataWithOpenAI\<close> up to the merge (lines 313-393): its result
  or the exception it throws, the file system and \<^verbatim>\<open>allTempImagePaths\<close> at that moment.
  \<open>None\<close> is a run that never leaves the partition loop.
\<close>

definition try_body ::
  "externals \<Rightarrow> world \<Rightarrow> heap \<Rightarrow> string list \<Rightarrow> int \<Rightarrow> string option
     \<Rightarrow> ((error + heap \<times> jsval) \<times> world \<times> string list) option" where
  "try_body ext w h files batchSize documentType =
     (case expand_files ext w files [] [] of
        (w1, allImagePaths, allTempImagePaths, Some e) \<Rightarrow>
          Some (Inl e, w1, allTempImagePaths)
      | (w1, allImagePaths, allTempImagePaths, None) \<Rightarrow>
          (if length allImagePaths = 0
           then Some (Inl (Error ''No images to process''), w1, allTempImagePaths)
           else (case partition_loop allImagePaths batchSize 0 [] of
                   None \<Rightarrow> None
                 | Some batches \<Rightarrow>
                     (case process_batches ext w1
                             (getPromptForDocumentType ext documentType) h 0 batches [] of
                        Inl e \<Rightarrow> Some (Inl e, w1, allTempImagePaths)
                      | Inr (h', allExtractedData) \<Rightarrow>
                          Some (mergeExtractedData h' allExtractedData, w1,
                                allTempImagePaths)))))"

text \<open>
  \<^verbatim>\<open>extractDataWithOpenAI\<close> (lines 307-417) on a list of file paths (a single path is
  wrapped into a list by the source). An absent \<open>batchSize\<close> is 5 and an absent
  \<open>documentType\<close> is \<^verbatim>\<open>'MBL'\<close>, the default parameters. The first branch is the normal
  completion (lines 395-400), the second the \<^verbatim>\<open>catch\<close> (lines 401-416), which cleans up
  and rethrows.
\<close>

definition extractDataWithOpenAI ::
  "externals \<Rightarrow> world \<Rightarrow> heap \<Rightarrow> string list \<Rightarrow> int option \<Rightarrow> string option
     \<Rightarrow> ((error + heap \<times> jsval) \<times> world) option" where
  "extractDataWithOpenAI ext w h filePaths batchSize documentType =
     (case try_body ext w h filePaths (case batchSize of None \<Rightarrow> 5 | Some b \<Rightarrow> b)
             (case documentType of None \<Rightarrow> Some ''MBL'' | Some t \<Rightarrow> Some t) of
        None \<Rightarrow> None
      | Some (Inr mergedData, w1, allTempImagePaths) \<Rightarrow>
          Some (Inr mergedData,
                if length allTempImagePaths > 0 then cleanupTempImages w1 allTempImagePaths
                else w1)
      | Some (Inl e, w1, allTempImagePaths) \<Rightarrow>
          Some (Inl e,
                if length allTempImagePaths > 0 then cleanupTempImages w1 allTempImagePaths
                else w1))"

section \<open>Observations, specification-level notions and sample data\<close>

text \<open>\<^verbatim>\<open>v.k1.k2...\<close>: a property of \<^verbatim>\<open>undefined\<close> cannot be read.\<close>

fun lookup_path :: "heap \<Rightarrow> jsval \<Rightarrow> string list \<Rightarrow> error + jsval option" where
  "lookup_path h v [] = Inr (Some v)"
| "lookup_path h v [k] = get_prop h v k"
| "lookup_path h v (k # ks) =
     (case get_prop h v k of
        Inl e \<Rightarrow> Inl e
      | Inr None \<Rightarrow> Inl TypeError
      | Inr (Some w) \<Rightarrow> lookup_path h w ks)"

definition array_elems :: "heap \<Rightarrow> jsval option \<Rightarrow> jsval list option" where
  "array_elems h r =
     (case r of
        Some (VRef a) \<Rightarrow> (case cell h a of Some (HArr vs) \<Rightarrow> Some vs | _ \<Rightarrow> None)
      | _ \<Rightarrow> None)"

text \<open>
  The addresses of the cells that a walk from a value passes, to any depth the fuel
  allows: the objects and arrays the value is made of.
\<close>

fun walk_addrs :: "nat \<Rightarrow> heap \<Rightarrow> jsval \<Rightarrow> addr list" where
  "walk_addrs n h VNull = []"
| "walk_addrs n h (VBool b) = []"
| "walk_addrs n h (VNum q) = []"
| "walk_addrs n h (VStr s) = []"
| "walk_addrs 0 h (VRef a) = [a]"
| "walk_addrs (Suc n) h (VRef a) =
     a # (case cell h a of
            None \<Rightarrow> []
          | Some (HArr vs) \<Rightarrow> concat (map (walk_addrs n h) vs)
          | Some (HObj fs) \<Rightarrow> concat (map (\<lambda>(k, v). walk_addrs n h v) fs))"

text \<open>What a caller observes of a merge: a path into the merged result, and its line items.\<close>

definition merged_path :: "heap \<Rightarrow> jsval list \<Rightarrow> string list \<Rightarrow> error + jsval option" where
  "merged_path h arr ks =
     (case mergeExtractedData h arr of
        Inl e \<Rightarrow> Inl e
      | Inr (h', m) \<Rightarrow> lookup_path h' m ks)"

definition merged_line_items :: "heap \<Rightarrow> jsval list \<Rightarrow> jsval list option" where
  "merged_line_items h arr =
     (case mergeExtractedData h arr of
        Inl e \<Rightarrow> None
      | Inr (h', m) \<Rightarrow>
          (case get_prop h' m ''line_items'' of
             Inl e \<Rightarrow> None
           | Inr r \<Rightarrow> array_elems h' r))"

definition succeeds :: "error + 'a \<Rightarrow> bool" where
  "succeeds r = (case r of Inl e \<Rightarrow> False | Inr x \<Rightarrow> True)"



text \<open>
  The object literal of lines 239-243 for two or more results, where the guard
  \<^verbatim>\<open>extractedDataArray.length > 0\<close> holds.
\<close>

definition confidence_obj :: "rat \<Rightarrow> nat \<Rightarrow> nat \<Rightarrow> hobj" where
  "confidence_obj tot n k =
     HObj [(''overall'', VNum (tot / of_nat n)), (''line_items'', VNum (of_nat k))]"



definition has_line_items :: "heap \<Rightarrow> jsval \<Rightarrow> jsval list \<Rightarrow> bool" where
  "has_line_items h d xs =
     (case get_prop h d ''line_items'' of
        Inr None \<Rightarrow> xs = []
      | Inr (Some VNull) \<Rightarrow> xs = []
      | Inr (Some (VRef a)) \<Rightarrow> cell h a = Some (HArr xs)
      | _ \<Rightarrow> False)"

text \<open>
  The partition of the specification: groups of \<open>n\<close> consecutive pages, the last one
  with what is left.
\<close>

fun spec_partition :: "nat \<Rightarrow> 'a list \<Rightarrow> 'a list list" where
  "spec_partition n xs =
     (if n = 0 \<or> xs = [] then [] else take n xs # spec_partition n (drop n xs))"

declare spec_partition.simps [simp del]



subsection \<open>Sample data\<close>

text \<open>
  Three batch results in one store. The first has no overall confidence
  (\<^verbatim>\<open>null\<close>) and a second confidence field \<^verbatim>\<open>header\<close>; the others have 0.6 and 0.8. The
  results are the objects at addresses 4, 8 and 12; addresses 1, 5 and 9 hold their
  line items, which carry no confidence at all.
\<close>

definition example_batch1 :: json where
  "example_batch1 = JObj
     [(''shipper'', JObj [(''name'', JStr ''ACME'')]),
      (''line_items'', JArr [JObj [(''line_no'', JNum 1)]]),
      (''extraction_confidence'', JObj [(''overall'', JNull), (''header'', JNum (9 / 10))])]"

definition example_batch2 :: json where
  "example_batch2 = JObj
     [(''line_items'', JArr [JObj [(''line_no'', JNum 2)]]),
      (''extraction_confidence'', JObj [(''overall'', JNum (6 / 10))])]"

definition example_batch3 :: json where
  "example_batch3 = JObj
     [(''line_items'', JArr [JObj [(''line_no'', JNum 3)]]),
      (''extraction_confidence'', JObj [(''overall'', JNum (8 / 10))])]"

definition example_store :: heap where
  "example_store = fst (JSON_parse_elems [] [example_batch1, example_batch2, example_batch3])"

text \<open>
  A file system with three files that are PDFs by name and content, a PDF named
  \<^verbatim>\<open>scan.png\<close> and a PNG image; a rasterizer that writes two pages for \<^verbatim>\<open>bl.pdf\<close>, none for
  \<^verbatim>\<open>empty.pdf\<close> and rejects every other file; a model that answers the first call with an
  empty object and rejects the second. In \<open>locked_world\<close> the first page file cannot be
  deleted.
\<close>

definition png_bytes :: bytes where
  "png_bytes = [CHR 0x89, CHR 0x50, CHR 0x4E, CHR 0x47, CHR 0x0D, CHR 0x0A]"

definition example_world :: world where
  "example_world =
     \<lparr>tempDir = ''/app/temp_images'',
      temp_files = [],
      other_files = map_of
        [(''/app/uploads/bl.pdf'', ''%PDF-1.7 two pages''),
         (''/app/uploads/empty.pdf'', ''%PDF-1.7 no page''),
         (''/app/uploads/broken.pdf'', ''%PDF-1.7 damaged''),
         (''/app/uploads/scan.png'', ''%PDF-1.4 wrongly named''),
         (''/app/uploads/photo.png'', png_bytes)],
      locked = [],
      convert_calls = [],
      warnings = []\<rparr>"

definition example_ext :: externals where
  "example_ext =
     \<lparr>pdf_convert = (\<lambda>pdfPath w.
        if pdfPath = ''/app/uploads/bl.pdf''
        then (temp_files w @ [(''page-1.png'', png_bytes), (''page-2.png'', png_bytes)], None)
        else if pdfPath = ''/app/uploads/empty.pdf'' then (temp_files w, None)
        else (temp_files w, Some ''Syntax Error: damaged file'')),
      chat_create = (\<lambda>n prompt images.
        if n = 0 then Inr ''{}'' else Inl ''429 rate limit''),
      json_parse = (\<lambda>text. if text = ''{}'' then Some (JObj []) else None),
      HBLPROMPT = ''house bill prompt'',
      COMMERCIAL_INVOICE_PROMPT = ''invoice prompt'',
      MBL_PROMPT = ''master bill prompt''\<rparr>"


section \<open>The store only grows\<close>

text \<open>
  Allocation appends cells and the merge assigns to fresh cells only, so every store is
  an extension of the one before; what could be read before reads the same afterwards.
\<close>

lemma succeedsE:
  assumes "succeeds r"
  obtains x where "r = Inr x"
  using assms by (cases r) (simp_all add: succeeds_def)


lemma cell_prefix: "prefix h h' \<Longrightarrow> cell h a = Some ob \<Longrightarrow> cell h' a = Some ob"
  by (auto simp: cell_def prefix_def nth_append split: if_splits)

lemma cell_Some_less: "cell h a = Some ob \<Longrightarrow> a < length h"
  by (simp add: cell_def split: if_splits)

lemma get_prop_prefix:
  assumes "prefix h h'" and "get_prop h v k = Inr r"
  shows "get_prop h' v k = Inr r"
proof (cases v)
  case (VRef a)
  with assms(2) obtain ob where c: "cell h a = Some ob"
    by (auto simp: get_prop_def split: option.splits)
  from cell_prefix [OF assms(1) c] c assms(2) VRef show ?thesis
    by (simp add: get_prop_def)
qed (use assms(2) in \<open>simp_all add: get_prop_def\<close>)

lemma flat_prop_prefix:
  assumes "prefix h h'" and "flat_prop h k d = Inr xs"
  shows "flat_prop h' k d = Inr xs"
proof -
  from assms(2) obtain r where r: "get_prop h d k = Inr r"
    by (auto simp: flat_prop_def split: sum.splits)
  have r': "get_prop h' d k = Inr r"
    by (rule get_prop_prefix [OF assms(1) r])
  show ?thesis
  proof (cases "\<exists>a. r = Some (VRef a)")
    case True
    then obtain a where a: "r = Some (VRef a)" by blast
    with assms(2) r obtain ob where c: "cell h a = Some ob"
      by (auto simp: flat_prop_def split: option.splits)
    from cell_prefix [OF assms(1) c] c assms(2) r r' a show ?thesis
      by (simp add: flat_prop_def)
  next
    case False
    with r r' have "flat_prop h' k d = flat_prop h k d"
      by (cases r) (auto simp: flat_prop_def split: jsval.splits)
    with assms(2) show ?thesis by simp
  qed
qed

lemma flatMap_prop_prefix:
  "prefix h h' \<Longrightarrow> flatMap_prop h k ds = Inr xs \<Longrightarrow> flatMap_prop h' k ds = Inr xs"
proof (induction ds arbitrary: xs)
  case (Cons d ds)
  from Cons.prems(2) obtain ys zs where
    "flat_prop h k d = Inr ys" "flatMap_prop h k ds = Inr zs" "xs = ys @ zs"
    by (auto split: sum.splits)
  with Cons.IH [OF Cons.prems(1)] flat_prop_prefix [OF Cons.prems(1)] show ?case
    by simp
qed simp

lemma overall_or_zero_prefix:
  assumes "prefix h h'" and "overall_or_zero h d = Inr x"
  shows "overall_or_zero h' d = Inr x"
proof -
  from assms(2) obtain c where c: "get_prop h d ''extraction_confidence'' = Inr c"
    by (auto simp: overall_or_zero_def split: sum.splits)
  have c': "get_prop h' d ''extraction_confidence'' = Inr c"
    by (rule get_prop_prefix [OF assms(1) c])
  show ?thesis
  proof (cases "c = None \<or> c = Some VNull")
    case True
    with assms(2) c c' show ?thesis
      by (auto simp: overall_or_zero_def)
  next
    case False
    then obtain w where w: "c = Some w" "w \<noteq> VNull" by auto
    with assms(2) c obtain r where r: "get_prop h w ''overall'' = Inr r"
      by (cases w) (auto simp: overall_or_zero_def split: sum.splits)
    have r': "get_prop h' w ''overall'' = Inr r"
      by (rule get_prop_prefix [OF assms(1) r])
    from assms(2) c c' r r' w show ?thesis
      by (cases w) (simp_all add: overall_or_zero_def)
  qed
qed

lemma reduce_overall_prefix:
  "prefix h h' \<Longrightarrow> reduce_overall h s ds = Inr x \<Longrightarrow> reduce_overall h' s ds = Inr x"
proof (induction ds arbitrary: s)
  case (Cons d ds)
  from Cons.prems(2) obtain y s' where
    "overall_or_zero h d = Inr y" "js_add s y = Inr s'" "reduce_overall h s' ds = Inr x"
    by (auto split: sum.splits)
  with Cons.IH [OF Cons.prems(1)] overall_or_zero_prefix [OF Cons.prems(1)] show ?case
    by simp
qed simp

lemma alloc_prefix: "alloc h ob = (h', v) \<Longrightarrow> prefix h h'"
  by (auto simp: alloc_def)

lemma parse_prefix:
  "JSON_parse_alloc h t = (h', v) \<Longrightarrow> prefix h h'"
  "JSON_parse_elems h ts = (h', vs) \<Longrightarrow> prefix h h'"
  "JSON_parse_props h kts = (h', fs) \<Longrightarrow> prefix h h'"
proof (induction h t and h ts and h kts arbitrary: h' v and h' vs and h' fs
    rule: JSON_parse_alloc_JSON_parse_elems_JSON_parse_props.induct)
qed (auto simp: alloc_def split: prod.splits intro: prefix_order.trans)

subsection \<open>Reading back what was parsed\<close>

text \<open>
  More fuel and a larger store do not change what a walk reads, and a parsed document
  reads back as itself with as much fuel as it has cells: a deep copy made of
  \<^verbatim>\<open>JSON.parse(JSON.stringify(x))\<close> has the content of \<open>x\<close>.
\<close>

lemma those_map_cong_Some:
  "those (map f xs) = Some ys \<Longrightarrow> (\<And>x y. x \<in> set xs \<Longrightarrow> f x = Some y \<Longrightarrow> g x = Some y)
     \<Longrightarrow> those (map g xs) = Some ys"
proof (induction xs arbitrary: ys)
  case (Cons x xs)
  from Cons.prems(1) obtain y zs where
    y: "f x = Some y" and zs: "those (map f xs) = Some zs" and ys: "ys = y # zs"
    by (auto split: option.splits)
  have "g x = Some y" using Cons.prems(2) y by simp
  moreover have "those (map g xs) = Some zs"
    using Cons.IH [OF zs] Cons.prems(2) by simp
  ultimately show ?case using ys by simp
qed simp

lemma read_json_mono:
  "read_json n h v = Some t \<Longrightarrow> n \<le> m \<Longrightarrow> prefix h h' \<Longrightarrow> read_json m h' v = Some t"
proof (induction n arbitrary: v t m)
  case 0
  then show ?case by (cases v) simp_all
next
  case (Suc n)
  show ?case
  proof (cases v)
    case (VRef a)
    from Suc.prems(2) obtain m' where m: "m = Suc m'" "n \<le> m'"
      by (cases m) auto
    from Suc.prems(1) VRef obtain ob where c: "cell h a = Some ob"
      by (auto split: option.splits)
    have c': "cell h' a = Some ob" by (rule cell_prefix [OF Suc.prems(3) c])
    show ?thesis
    proof (cases ob)
      case (HArr vs)
      with Suc.prems(1) VRef c obtain ts where
        ts: "those (map (read_json n h) vs) = Some ts" and t: "t = JArr ts"
        by auto
      have "those (map (read_json m' h') vs) = Some ts"
        by (rule those_map_cong_Some [OF ts]) (rule Suc.IH [OF _ m(2) Suc.prems(3)])
      with VRef c' HArr m t show ?thesis by simp
    next
      case (HObj fs)
      with Suc.prems(1) VRef c obtain kts where
        kts: "those (map (\<lambda>(k, v). map_option (Pair k) (read_json n h v)) fs) = Some kts"
        and t: "t = JObj kts"
        by auto
      have "those (map (\<lambda>(k, v). map_option (Pair k) (read_json m' h' v)) fs) = Some kts"
      proof (rule those_map_cong_Some [OF kts])
        fix x y
        assume "(case x of (k, v) \<Rightarrow> map_option (Pair k) (read_json n h v)) = Some y"
        then obtain k v u where "x = (k, v)" "read_json n h v = Some u" "y = (k, u)"
          by (cases x) auto
        with Suc.IH [OF _ m(2) Suc.prems(3)]
        show "(case x of (k, v) \<Rightarrow> map_option (Pair k) (read_json m' h' v)) = Some y"
          by simp
      qed
      with VRef c' HObj m t show ?thesis by simp
    qed
  qed (use Suc.prems(1) in simp_all)
qed

lemma parse_read:
  "JSON_parse_alloc h t = (h', v) \<Longrightarrow> read_json (length h' - length h) h' v = Some t"
  "JSON_parse_elems h ts = (h', vs) \<Longrightarrow>
     those (map (read_json (length h' - length h) h') vs) = Some ts"
  "JSON_parse_props h kts = (h', fs) \<Longrightarrow>
     those (map (\<lambda>(k, v). map_option (Pair k) (read_json (length h' - length h) h' v)) fs)
       = Some kts"
proof (induction h t and h ts and h kts arbitrary: h' v and h' vs and h' fs
    rule: JSON_parse_alloc_JSON_parse_elems_JSON_parse_props.induct)
  case (5 h ts)
  obtain h1 vs where e: "JSON_parse_elems h ts = (h1, vs)" by (cases "JSON_parse_elems h ts")
  with "5.prems" have h': "h' = h1 @ [HArr vs]" and v: "v = VRef (length h1)"
    by (simp_all add: alloc_def)
  have p: "prefix h h1" by (rule parse_prefix(2) [OF e])
  then have len: "length h' - length h = Suc (length h1 - length h)"
    using h' by (auto simp: prefix_def)
  have "those (map (read_json (length h1 - length h) h') vs) = Some ts"
    by (rule those_map_cong_Some [OF "5.IH" [OF e]])
       (rule read_json_mono, assumption, simp, simp add: h')
  then show ?case unfolding len by (simp add: v h' cell_def)
next
  case (6 h kts)
  obtain h1 fs where e: "JSON_parse_props h kts = (h1, fs)" by (cases "JSON_parse_props h kts")
  with "6.prems" have h': "h' = h1 @ [HObj fs]" and v: "v = VRef (length h1)"
    by (simp_all add: alloc_def)
  have p: "prefix h h1" by (rule parse_prefix(3) [OF e])
  then have len: "length h' - length h = Suc (length h1 - length h)"
    using h' by (auto simp: prefix_def)
  have "those (map (\<lambda>(k, v). map_option (Pair k) (read_json (length h1 - length h) h' v)) fs)
          = Some kts"
  proof (rule those_map_cong_Some [OF "6.IH" [OF e]])
    fix x y
    assume "(case x of (k, v) \<Rightarrow> map_option (Pair k) (read_json (length h1 - length h) h1 v)) = Some y"
    then obtain k w u where "x = (k, w)" "read_json (length h1 - length h) h1 w = Some u" "y = (k, u)"
      by (cases x) auto
    moreover have "prefix h1 h'" by (simp add: h')
    ultimately show "(case x of (k, v) \<Rightarrow> map_option (Pair k) (read_json (length h1 - length h) h' v)) = Some y"
      using read_json_mono [of "length h1 - length h" h1 w u "length h1 - length h" h'] by simp
  qed
  then show ?case unfolding len by (simp add: v h' cell_def)
next
  case (8 h t ts)
  obtain h1 w where a: "JSON_parse_alloc h t = (h1, w)" by (cases "JSON_parse_alloc h t")
  obtain h2 ws where b: "JSON_parse_elems h1 ts = (h2, ws)" by (cases "JSON_parse_elems h1 ts")
  from "8.prems" a b have h': "h' = h2" and vs: "vs = w # ws" by simp_all
  have p1: "prefix h h1" by (rule parse_prefix(1) [OF a])
  have p2: "prefix h1 h2" by (rule parse_prefix(2) [OF b])
  have l1: "length h \<le> length h1" and l2: "length h1 \<le> length h2"
    using p1 p2 by (auto simp: prefix_def)
  have r1: "read_json (length h2 - length h) h2 w = Some t"
    by (rule read_json_mono [OF "8.IH"(1) [OF a] _ p2]) (use l1 l2 in arith)
  have r2: "those (map (read_json (length h2 - length h) h2) ws) = Some ts"
    by (rule those_map_cong_Some [OF "8.IH"(2) [OF a [symmetric] b]])
       (rule read_json_mono, assumption, use l1 l2 in arith, simp)
  show ?case by (simp add: h' vs r1 r2)
next
  case (10 h k t kts)
  obtain h1 w where a: "JSON_parse_alloc h t = (h1, w)" by (cases "JSON_parse_alloc h t")
  obtain h2 ws where b: "JSON_parse_props h1 kts = (h2, ws)" by (cases "JSON_parse_props h1 kts")
  from "10.prems" a b have h': "h' = h2" and fs: "fs = (k, w) # ws" by simp_all
  have p1: "prefix h h1" by (rule parse_prefix(1) [OF a])
  have p2: "prefix h1 h2" by (rule parse_prefix(3) [OF b])
  have l1: "length h \<le> length h1" and l2: "length h1 \<le> length h2"
    using p1 p2 by (auto simp: prefix_def)
  have r1: "read_json (length h2 - length h) h2 w = Some t"
    by (rule read_json_mono [OF "10.IH"(1) [OF a] _ p2]) (use l1 l2 in arith)
  have r2: "those (map (\<lambda>(k, v). map_option (Pair k) (read_json (length h2 - length h) h2 v)) ws) = Some kts"
  proof (rule those_map_cong_Some [OF "10.IH"(2) [OF a [symmetric] b]])
    fix x y
    assume "(case x of (k, v) \<Rightarrow> map_option (Pair k) (read_json (length h2 - length h1) h2 v)) = Some y"
    then obtain k' w' u where "x = (k', w')" "read_json (length h2 - length h1) h2 w' = Some u" "y = (k', u)"
      by (cases x) auto
    then show "(case x of (k, v) \<Rightarrow> map_option (Pair k) (read_json (length h2 - length h) h2 v)) = Some y"
      using read_json_mono [of "length h2 - length h1" h2 w' u "length h2 - length h" h2] l1 l2 by simp
  qed
  show ?case by (simp add: h' fs r1 r2)
qed simp_all

lemma stringify_parse:
  assumes "JSON_parse_alloc h t = (h', v)"
  shows "JSON_stringify h' v = Some t"
  unfolding JSON_stringify_def
  by (rule read_json_mono [OF parse_read(1) [OF assms]]) simp_all

lemma those_map_of:
  "those (map (\<lambda>(k, v). map_option (Pair k) (f v)) fs) = Some kts \<Longrightarrow>
     rel_option (\<lambda>v t. f v = Some t) (map_of fs k) (map_of kts k)"
proof (induction fs arbitrary: kts)
  case Nil
  then show ?case by simp
next
  case (Cons p fs)
  obtain k' v where p: "p = (k', v)" by (cases p)
  from Cons.prems p obtain t rest where
    t: "f v = Some t" and rest: "those (map (\<lambda>(k, v). map_option (Pair k) (f v)) fs) = Some rest"
    and kts: "kts = (k', t) # rest"
    by (auto split: option.splits)
  from Cons.IH [OF rest] t show ?case by (simp add: p kts)
qed

text \<open>
  Every cell of a parsed document is allocated by the parse: a walk from its root, or
  from any of its elements or property values, passes new cells only.
\<close>

lemma parse_fresh:
  "JSON_parse_alloc h t = (h', v) \<Longrightarrow> prefix h' h2 \<Longrightarrow>
     set (walk_addrs n h2 v) \<subseteq> {length h..<length h'}"
  "JSON_parse_elems h ts = (h', vs) \<Longrightarrow> prefix h' h2 \<Longrightarrow> x \<in> set vs \<Longrightarrow>
     set (walk_addrs n h2 x) \<subseteq> {length h..<length h'}"
  "JSON_parse_props h kts = (h', fs) \<Longrightarrow> prefix h' h2 \<Longrightarrow> (k, x) \<in> set fs \<Longrightarrow>
     set (walk_addrs n h2 x) \<subseteq> {length h..<length h'}"
proof (induction h t and h ts and h kts arbitrary: h' v h2 n and h' vs h2 x n and h' fs h2 k x n
    rule: JSON_parse_alloc_JSON_parse_elems_JSON_parse_props.induct)
  case (5 h ts)
  obtain h1 ws where e: "JSON_parse_elems h ts = (h1, ws)" by (cases "JSON_parse_elems h ts")
  with "5.prems"(1) have h': "h' = h1 @ [HArr ws]" and v: "v = VRef (length h1)"
    by (simp_all add: alloc_def)
  have p: "prefix h h1" by (rule parse_prefix(2) [OF e])
  then have l: "length h \<le> length h1" by (rule prefix_length_le)
  have p1: "prefix h1 h2" using "5.prems"(2) by (auto simp: h' prefix_def)
  have c: "cell h2 (length h1) = Some (HArr ws)"
    by (rule cell_prefix [OF "5.prems"(2)]) (simp add: h' cell_def)
  show ?case
  proof (cases n)
    case 0
    then show ?thesis using l by (simp add: v h')
  next
    case (Suc m)
    have "set (walk_addrs m h2 x) \<subseteq> {length h..<length h'}" if "x \<in> set ws" for x
      using "5.IH" [OF e p1 that, of m] by (auto simp: h')
    then show ?thesis using l by (auto simp: Suc v c h')
  qed
next
  case (6 h kts)
  obtain h1 ws where e: "JSON_parse_props h kts = (h1, ws)" by (cases "JSON_parse_props h kts")
  with "6.prems"(1) have h': "h' = h1 @ [HObj ws]" and v: "v = VRef (length h1)"
    by (simp_all add: alloc_def)
  have p: "prefix h h1" by (rule parse_prefix(3) [OF e])
  then have l: "length h \<le> length h1" by (rule prefix_length_le)
  have p1: "prefix h1 h2" using "6.prems"(2) by (auto simp: h' prefix_def)
  have c: "cell h2 (length h1) = Some (HObj ws)"
    by (rule cell_prefix [OF "6.prems"(2)]) (simp add: h' cell_def)
  show ?case
  proof (cases n)
    case 0
    then show ?thesis using l by (simp add: v h')
  next
    case (Suc m)
    have "set (walk_addrs m h2 x) \<subseteq> {length h..<length h'}" if "(k, x) \<in> set ws" for k x
      using "6.IH" [OF e p1 that, of m] by (auto simp: h')
    then show ?thesis using l by (auto simp: Suc v c h')
  qed
next
  case (8 h t ts)
  obtain h1 w where a: "JSON_parse_alloc h t = (h1, w)" by (cases "JSON_parse_alloc h t")
  obtain h3 ws where b: "JSON_parse_elems h1 ts = (h3, ws)" by (cases "JSON_parse_elems h1 ts")
  from "8.prems"(1) a b have h': "h' = h3" and vs: "vs = w # ws" by simp_all
  have p1: "prefix h h1" by (rule parse_prefix(1) [OF a])
  have p2: "prefix h1 h3" by (rule parse_prefix(2) [OF b])
  have l1: "length h \<le> length h1" and l2: "length h1 \<le> length h3"
    using p1 p2 by (auto dest: prefix_length_le)
  have q: "prefix h1 h2" using p2 "8.prems"(2) by (simp add: h' prefix_order.trans [OF p2])
  from "8.prems"(3) vs consider "x = w" | "x \<in> set ws" by auto
  then show ?case
  proof cases
    case 1
    from "8.IH"(1) [OF a q, of n] show ?thesis using l2 by (auto simp: 1 h')
  next
    case 2
    from "8.IH"(2) [OF a [symmetric] b _ 2, of h2 n] "8.prems"(2)
    show ?thesis using l1 by (auto simp: h')
  qed
next
  case (10 h k' t kts)
  obtain h1 w where a: "JSON_parse_alloc h t = (h1, w)" by (cases "JSON_parse_alloc h t")
  obtain h3 ws where b: "JSON_parse_props h1 kts = (h3, ws)" by (cases "JSON_parse_props h1 kts")
  from "10.prems"(1) a b have h': "h' = h3" and fs: "fs = (k', w) # ws" by simp_all
  have p1: "prefix h h1" by (rule parse_prefix(1) [OF a])
  have p2: "prefix h1 h3" by (rule parse_prefix(3) [OF b])
  have l1: "length h \<le> length h1" and l2: "length h1 \<le> length h3"
    using p1 p2 by (auto dest: prefix_length_le)
  have q: "prefix h1 h2" using p2 "10.prems"(2) by (simp add: h' prefix_order.trans [OF p2])
  from "10.prems"(3) fs consider "x = w" | "(k, x) \<in> set ws" by auto
  then show ?case
  proof cases
    case 1
    from "10.IH"(1) [OF a q, of n] show ?thesis using l2 by (auto simp: 1 h')
  next
    case 2
    from "10.IH"(2) [OF a [symmetric] b _ 2, of h2 n] "10.prems"(2)
    show ?thesis using l1 by (auto simp: h')
  qed
qed simp_all

section \<open>Anatomy of a merge of two or more results\<close>

text \<open>
  When the merge of at least two results returns, the first result is an object; the
  final store is the store after its deep copy, with the copy's three properties
  assigned, followed by exactly three new cells: the array of line items, the confidence
  object and the array of missing fields.
\<close>

lemma merge_stages:
  assumes "2 \<le> length arr" and "mergeExtractedData h arr = Inr (h', m)"
  obtains doc h1 items h3 tot h5 allMissing where
    "JSON_stringify h (arr ! 0) = Some doc"
    "JSON_parse_alloc h doc = (h1, m)"
    "flatMap_prop h1 ''line_items'' arr = Inr items"
    "set_prop (h1 @ [HArr items]) m ''line_items'' (VRef (length h1)) = Inr h3"
    "reduce_overall h3 0 arr = Inr tot"
    "set_prop (h3 @ [confidence_obj tot (length arr) (length items)]) m
       ''extraction_confidence'' (VRef (length h3)) = Inr h5"
    "flatMap_prop h5 ''missing_fields'' arr = Inr allMissing"
    "set_prop (h5 @ [HArr (set_spread [] allMissing)]) m ''missing_fields''
       (VRef (length h5)) = Inr h'"
proof -
  from assms(1) have n: "length arr \<noteq> 0" "length arr \<noteq> 1" "0 < length arr" by auto
  show ?thesis
    using n assms(2) that
    by (simp add: mergeExtractedData_def alloc_def confidence_obj_def
          split: option.splits prod.splits sum.splits)
qed

lemma parse_ref_cases:
  assumes "JSON_parse_alloc h doc = (h1, VRef a)"
  obtains (Arr) ts h0 vs where "doc = JArr ts" "JSON_parse_elems h ts = (h0, vs)"
      "h1 = h0 @ [HArr vs]" "a = length h0"
    | (Obj) kts h0 fs where "doc = JObj kts" "JSON_parse_props h kts = (h0, fs)"
      "h1 = h0 @ [HObj fs]" "a = length h0"
  using assms by (cases doc) (auto simp: alloc_def split: prod.splits)

lemma set_prop_ref:
  assumes "set_prop h v k x = Inr h'"
  obtains a fs where "v = VRef a" "cell h a = Some (HObj fs)"
    "h' = h[a := HObj (AList.update k x fs)]"
  using assms
  by (cases v) (auto simp: set_prop_def split: option.splits hobj.splits)

lemma merge_anatomy:
  assumes "2 \<le> length arr" and "mergeExtractedData h arr = Inr (h', m)"
  obtains kts h0 fs items tot allMissing where
    "JSON_stringify h (arr ! 0) = Some (JObj kts)"
    "JSON_parse_props h kts = (h0, fs)"
    "prefix h h0"
    "m = VRef (length h0)"
    "\<And>xs. flatMap_prop h ''line_items'' arr = Inr xs \<Longrightarrow> items = xs"
    "\<And>t. reduce_overall h 0 arr = Inr t \<Longrightarrow> tot = t"
    "\<And>xs. flatMap_prop h ''missing_fields'' arr = Inr xs \<Longrightarrow> allMissing = xs"
    "h' = h0 @
       [HObj (AList.update ''missing_fields'' (VRef (Suc (Suc (Suc (length h0)))))
               (AList.update ''extraction_confidence'' (VRef (Suc (Suc (length h0))))
                 (AList.update ''line_items'' (VRef (Suc (length h0))) fs))),
        HArr items,
        confidence_obj tot (length arr) (length items),
        HArr (set_spread [] allMissing)]"
proof -
  from assms obtain doc h1 items h3 tot h5 allMissing where
    doc: "JSON_stringify h (arr ! 0) = Some doc" and
    p: "JSON_parse_alloc h doc = (h1, m)" and
    i: "flatMap_prop h1 ''line_items'' arr = Inr items" and
    s1: "set_prop (h1 @ [HArr items]) m ''line_items'' (VRef (length h1)) = Inr h3" and
    r: "reduce_overall h3 0 arr = Inr tot" and
    s2: "set_prop (h3 @ [confidence_obj tot (length arr) (length items)]) m
       ''extraction_confidence'' (VRef (length h3)) = Inr h5" and
    a: "flatMap_prop h5 ''missing_fields'' arr = Inr allMissing" and
    s3: "set_prop (h5 @ [HArr (set_spread [] allMissing)]) m ''missing_fields''
       (VRef (length h5)) = Inr h'"
    by (rule merge_stages)
  from s1 obtain am fs1 where m: "m = VRef am"
    and c1: "cell (h1 @ [HArr items]) am = Some (HObj fs1)"
    by (rule set_prop_ref)
  from p [unfolded m] obtain kts h0 fs where
    kts: "doc = JObj kts" and pp: "JSON_parse_props h kts = (h0, fs)"
    and h1: "h1 = h0 @ [HObj fs]" and am: "am = length h0"
  proof (cases rule: parse_ref_cases)
    case (Arr ts h0 vs)
    with c1 show ?thesis by (simp add: cell_def nth_append)
  next
    case (Obj kts h0 fs)
    with that show ?thesis by blast
  qed
  have pre: "prefix h h0" by (rule parse_prefix(3) [OF pp])
  have h3: "h3 = h0 @ [HObj (AList.update ''line_items'' (VRef (Suc (length h0))) fs), HArr items]"
    using s1 by (simp add: m am h1 set_prop_def cell_def nth_append list_update_append)
  have h5: "h5 = h0 @ [HObj (AList.update ''extraction_confidence'' (VRef (Suc (Suc (length h0))))
                 (AList.update ''line_items'' (VRef (Suc (length h0))) fs)), HArr items,
                 confidence_obj tot (length arr) (length items)]"
    using s2 by (simp add: m am h3 set_prop_def cell_def nth_append list_update_append)
  have h': "h' = h0 @
       [HObj (AList.update ''missing_fields'' (VRef (Suc (Suc (Suc (length h0)))))
               (AList.update ''extraction_confidence'' (VRef (Suc (Suc (length h0))))
                 (AList.update ''line_items'' (VRef (Suc (length h0))) fs))),
        HArr items,
        confidence_obj tot (length arr) (length items),
        HArr (set_spread [] allMissing)]"
    using s3 by (simp add: m am h5 set_prop_def cell_def nth_append list_update_append)
  have p1: "prefix h h1" unfolding h1 by (rule prefix_order.trans [OF pre]) simp
  have p3: "prefix h h3" unfolding h3 by (rule prefix_order.trans [OF pre]) simp
  have p5: "prefix h h5" unfolding h5 by (rule prefix_order.trans [OF pre]) simp
  have e1: "items = xs" if "flatMap_prop h ''line_items'' arr = Inr xs" for xs
    using flatMap_prop_prefix [OF p1 that] i by simp
  have e2: "tot = t" if "reduce_overall h 0 arr = Inr t" for t
    using reduce_overall_prefix [OF p3 that] r by simp
  have e3: "allMissing = xs" if "flatMap_prop h ''missing_fields'' arr = Inr xs" for xs
    using flatMap_prop_prefix [OF p5 that] a by simp
  show ?thesis
    by (rule that [OF doc [unfolded kts] pp pre _ e1 e2 e3 h']) (simp_all add: m am)
qed



lemma has_line_items_flat:
  assumes "has_line_items h d xs"
  shows "flat_prop h ''line_items'' d = Inr xs"
proof (cases "get_prop h d ''line_items''")
  case (Inl e)
  with assms show ?thesis by (simp add: has_line_items_def)
next
  case (Inr r)
  with assms show ?thesis
    by (cases r; cases "the r") (auto simp: has_line_items_def flat_prop_def)
qed

lemma flatMap_line_items:
  "list_all2 (has_line_items h) arr xss \<Longrightarrow>
     flatMap_prop h ''line_items'' arr = Inr (concat xss)"
proof (induction arr xss rule: list_all2_induct)
  case Nil
  then show ?case by simp
next
  case (Cons d ds xs xss)
  from has_line_items_flat [OF Cons.hyps(1)] Cons.IH show ?case by simp
qed

text \<open>
  What the merged object is made of: the properties taken from the first result are
  copies built of new cells only, and the three assigned properties are new cells, the
  array of line items holding the values the inputs' arrays hold.
\<close>

lemma merge_copied_field:
  assumes "2 \<le> length arr"
    and "mergeExtractedData h arr = Inr (h', m)"
    and "JSON_stringify h (arr ! 0) = Some (JObj kts)"
    and "k \<noteq> ''line_items''" "k \<noteq> ''extraction_confidence''" "k \<noteq> ''missing_fields''"
  shows "\<exists>r. get_prop h' m k = Inr r
           \<and> rel_option (\<lambda>v t. JSON_stringify h' v = Some t
                 \<and> (\<forall>n. set (walk_addrs n h' v) \<subseteq> {length h..<length h'})) r (map_of kts k)"
proof (rule merge_anatomy [OF assms(1,2)], goal_cases)
  case (1 kts' h0 fs items tot allMissing)
  note doc = 1(1) and pp = 1(2) and m = 1(4) and h' = 1(8)
  from doc assms(3) have kts: "kts' = kts" by simp
  have rd: "those (map (\<lambda>(k, v). map_option (Pair k) (read_json (length h0 - length h) h0 v)) fs)
       = Some kts"
    using parse_read(3) [OF pp] kts by simp
  have rel0: "rel_option (\<lambda>v t. read_json (length h0 - length h) h0 v = Some t)
      (map_of fs k) (map_of kts k)"
    by (rule those_map_of [OF rd])
  have pre': "prefix h0 h'" by (simp add: h')
  have len: "length h0 - length h \<le> length h'" by (simp add: h')
  have l0: "length h0 \<le> length h'" by (simp add: h')
  have rel: "rel_option (\<lambda>v t. JSON_stringify h' v = Some t
                 \<and> (\<forall>n. set (walk_addrs n h' v) \<subseteq> {length h..<length h'}))
             (map_of fs k) (map_of kts k)"
    using rel0
  proof (rule option.rel_mono_strong)
    fix v t
    assume v: "v \<in> set_option (map_of fs k)"
      and r: "read_json (length h0 - length h) h0 v = Some t"
    from v have "(k, v) \<in> set fs" by (auto dest: map_of_SomeD)
    from parse_fresh(3) [OF pp pre' this]
    have "set (walk_addrs n h' v) \<subseteq> {length h..<length h'}" for n
      using l0 by fastforce
    moreover have "JSON_stringify h' v = Some t"
      unfolding JSON_stringify_def by (rule read_json_mono [OF r len pre'])
    ultimately show "JSON_stringify h' v = Some t
                 \<and> (\<forall>n. set (walk_addrs n h' v) \<subseteq> {length h..<length h'})"
      by blast
  qed
  have g: "get_prop h' m k = Inr (map_of fs k)"
    using assms(4-6) by (simp add: m h' get_prop_def cell_def nth_append update_conv')
  from g rel show ?case by blast
qed

lemma merge_reassigned_fields:
  assumes "2 \<le> length arr"
    and "mergeExtractedData h arr = Inr (h', m)"
  shows "\<exists>a i e f. m = VRef a \<and> length h \<le> a \<and> a < length h'
           \<and> get_prop h' m ''line_items'' = Inr (Some (VRef i)) \<and> length h \<le> i
           \<and> get_prop h' m ''extraction_confidence'' = Inr (Some (VRef e)) \<and> length h \<le> e
           \<and> get_prop h' m ''missing_fields'' = Inr (Some (VRef f)) \<and> length h \<le> f
           \<and> (\<forall>xss. list_all2 (has_line_items h) arr xss \<longrightarrow>
                  cell h' i = Some (HArr (concat xss)))"
proof (rule merge_anatomy [OF assms], goal_cases)
  case (1 kts h0 fs items tot allMissing)
  note m = 1(4) and items = 1(5) and h' = 1(8)
  from 1(3) have l: "length h \<le> length h0" by (rule prefix_length_le)
  have a: "m = VRef (length h0)" "length h \<le> length h0" "length h0 < length h'"
    using l by (simp_all add: m h')
  have i: "get_prop h' m ''line_items'' = Inr (Some (VRef (Suc (length h0))))"
    by (simp add: m h' get_prop_def cell_def nth_append update_conv')
  have e: "get_prop h' m ''extraction_confidence'' = Inr (Some (VRef (Suc (Suc (length h0)))))"
    by (simp add: m h' get_prop_def cell_def nth_append update_conv')
  have f: "get_prop h' m ''missing_fields'' = Inr (Some (VRef (Suc (Suc (Suc (length h0))))))"
    by (simp add: m h' get_prop_def cell_def nth_append update_conv')
  have c: "cell h' (Suc (length h0)) = Some (HArr (concat xss))"
    if "list_all2 (has_line_items h) arr xss" for xss
    using items [OF flatMap_line_items [OF that]] by (simp add: h' cell_def nth_append)
  from a i e f c l show ?case by (intro exI [of _ "length h0"] exI [of _ "Suc (length h0)"]
        exI [of _ "Suc (Suc (length h0))"] exI [of _ "Suc (Suc (Suc (length h0)))"]) simp
qed

lemma merge_store_grows:
  assumes "mergeExtractedData h arr = Inr (h', m)"
  shows "prefix h h'"
proof (cases "2 \<le> length arr")
  case True
  show ?thesis
  proof (rule merge_anatomy [OF True assms], goal_cases)
    case (1 kts h0 fs items tot allMissing)
    have "prefix h0 h'" by (simp add: 1(8))
    with 1(3) show ?case by (rule prefix_order.trans)
  qed
next
  case False
  then consider "arr = []" | x where "arr = [x]"
    by (cases arr; cases "tl arr") auto
  then show ?thesis
  proof cases
    case 1
    with assms show ?thesis by (simp add: mergeExtractedData_def)
  next
    case 2
    with assms show ?thesis by (simp add: mergeExtractedData_def)
  qed
qed









section \<open>The partition loop\<close>

text \<open>With a batch size that is not positive the loop never ends on a non-empty list.\<close>

lemma partition_loop_diverges:
  assumes "batchSize \<le> 0" and "i < int (length pages)"
  shows "partition_loop pages batchSize i batches = None"
proof (rule ccontr)
  assume "partition_loop pages batchSize i batches \<noteq> None"
  then obtain r where r: "partition_loop pages batchSize i batches = Some r" by blast
  have "\<not> (batchSize \<le> 0 \<and> i < int (length pages))"
  proof (rule partition_loop.raw_induct
      [where P = "\<lambda>pages batchSize i batches r. \<not> (batchSize \<le> 0 \<and> i < int (length pages))",
        OF _ r])
    fix f :: "'a list \<Rightarrow> int \<Rightarrow> int \<Rightarrow> 'a list list \<Rightarrow> 'a list list option"
      and ps b j bs y
    assume IH: "\<And>ps b j bs y. f ps b j bs = Some y \<Longrightarrow> \<not> (b \<le> 0 \<and> j < int (length ps))"
      and eq: "(if j < int (length ps) then f ps b (j + b) (bs @ [js_slice ps j (j + b)])
               else Some bs) = Some y"
    show "\<not> (b \<le> 0 \<and> j < int (length ps))"
    proof
      assume a: "b \<le> 0 \<and> j < int (length ps)"
      with eq have "f ps b (j + b) (bs @ [js_slice ps j (j + b)]) = Some y" by simp
      from IH [OF this] a show False by arith
    qed
  qed
  with assms show False by simp
qed

text \<open>With a positive batch size it computes the partition of the specification.\<close>

lemma spec_partition_Nil: "spec_partition n [] = []"
  by (simp add: spec_partition.simps)

lemma spec_partition_step:
  "0 < n \<Longrightarrow> xs \<noteq> [] \<Longrightarrow> spec_partition n xs = take n xs # spec_partition n (drop n xs)"
  by (subst spec_partition.simps) simp

lemma js_slice_window:
  assumes "0 \<le> i" and "0 < b"
  shows "js_slice xs i (i + b) = take (nat b) (drop (nat i) xs)"
proof -
  have "take (nat (min (i + b) (int (length xs)) - min i (int (length xs)))) (drop (nat (min i (int (length xs)))) xs)
        = take (nat b) (drop (nat i) xs)"
  proof (cases "i < int (length xs)")
    case True
    then have m: "min i (int (length xs)) = i" by simp
    have "take (nat (min (i + b) (int (length xs)) - i)) (drop (nat i) xs)
          = take (min (nat b) (length (drop (nat i) xs))) (drop (nat i) xs)"
      using True assms by (intro arg_cong2 [where f = take]) (auto simp: min_def)
    also have "\<dots> = take (nat b) (drop (nat i) xs)" by (simp add: min_def)
    finally show ?thesis by (simp add: m)
  next
    case False
    then show ?thesis using assms by simp
  qed
  with assms show ?thesis by (simp add: js_slice_def Let_def)
qed

lemma partition_loop_spec:
  assumes "0 < b" and "0 \<le> i"
  shows "partition_loop pages b i acc = Some (acc @ spec_partition (nat b) (drop (nat i) pages))"
  using assms(2)
proof (induction "length pages - nat i" arbitrary: i acc rule: less_induct)
  case less
  show ?case
  proof (cases "i < int (length pages)")
    case True
    have ne: "drop (nat i) pages \<noteq> []" using True less.prems by simp
    have dec: "length pages - nat (i + b) < length pages - nat i"
      using True less.prems assms(1) by linarith
    have nb: "nat (i + b) = nat i + nat b" using less.prems assms(1) by simp
    have "partition_loop pages b i acc
          = partition_loop pages b (i + b) (acc @ [js_slice pages i (i + b)])"
      using True by (subst partition_loop.simps) simp
    also have "\<dots> = Some ((acc @ [js_slice pages i (i + b)])
                         @ spec_partition (nat b) (drop (nat (i + b)) pages))"
      by (rule less.hyps [OF dec]) (use less.prems assms(1) in simp)
    also have "\<dots> = Some (acc @ spec_partition (nat b) (drop (nat i) pages))"
    proof -
      have s: "js_slice pages i (i + b) = take (nat b) (drop (nat i) pages)"
        by (rule js_slice_window [OF less.prems assms(1)])
      have d: "drop (nat (i + b)) pages = drop (nat b) (drop (nat i) pages)"
        unfolding nb by (simp add: add.commute)
      have st: "spec_partition (nat b) (drop (nat i) pages)
          = take (nat b) (drop (nat i) pages)
              # spec_partition (nat b) (drop (nat b) (drop (nat i) pages))"
        by (rule spec_partition_step [OF _ ne]) (use assms(1) in simp)
      show ?thesis unfolding s d st by simp
    qed
    finally show ?thesis .
  next
    case False
    then have "drop (nat i) pages = []" by simp
    moreover have "partition_loop pages b i acc = Some acc"
      using False by (subst partition_loop.simps) simp
    ultimately show ?thesis by (simp add: spec_partition_Nil)
  qed
qed

lemma concat_spec_partition: "0 < n \<Longrightarrow> concat (spec_partition n xs) = xs"
proof (induction n xs rule: spec_partition.induct)
  case (1 n xs)
  show ?case
  proof (cases "xs = []")
    case True
    then show ?thesis by (simp add: spec_partition_Nil)
  next
    case False
    with 1 show ?thesis by (simp add: spec_partition_step)
  qed
qed

lemma spec_partition_eq_Nil: "0 < n \<Longrightarrow> spec_partition n xs = [] \<longleftrightarrow> xs = []"
  by (cases "xs = []") (simp_all add: spec_partition_Nil spec_partition_step)

lemma spec_partition_count_bounds:
  "0 < n \<Longrightarrow> length xs \<le> length (spec_partition n xs) * n
     \<and> (xs \<noteq> [] \<longrightarrow> (length (spec_partition n xs) - 1) * n < length xs)"
proof (induction n xs rule: spec_partition.induct)
  case (1 n xs)
  show ?case
  proof (cases "xs = []")
    case True
    then show ?thesis by (simp add: spec_partition_Nil)
  next
    case False
    let ?m = "length (spec_partition n (drop n xs))"
    note st = spec_partition_step [OF 1(2) False]
    from 1(1) 1(2) False have
      ih1: "length xs - n \<le> ?m * n" and
      ih2: "drop n xs \<noteq> [] \<longrightarrow> (?m - 1) * n < length xs - n"
      by simp_all
    have a: "length xs \<le> Suc ?m * n" using ih1 by simp
    have b: "?m * n < length xs"
    proof (cases "drop n xs = []")
      case True
      then show ?thesis using False by (simp add: spec_partition_Nil)
    next
      case f: False
      then have big: "n < length xs" by simp
      from f 1(2) have "?m \<noteq> 0" by (simp add: spec_partition_eq_Nil)
      then obtain m' where m': "?m = Suc m'" by (cases ?m) auto
      from ih2 f have "m' * n < length xs - n" by (simp add: m')
      then show ?thesis using big by (simp add: m')
    qed
    from a b show ?thesis by (simp add: st)
  qed
qed

lemma spec_partition_full_batches:
  "0 < n \<Longrightarrow> Suc k < length (spec_partition n xs) \<Longrightarrow> length (spec_partition n xs ! k) = n"
proof (induction n xs arbitrary: k rule: spec_partition.induct)
  case (1 n xs)
  from 1(3) have ne: "xs \<noteq> []" by (auto simp: spec_partition_Nil)
  note st = spec_partition_step [OF 1(2) ne]
  from 1(3) st have rest: "spec_partition n (drop n xs) \<noteq> []" by auto
  then have "drop n xs \<noteq> []" by (auto simp: spec_partition_Nil)
  then have big: "n < length xs" by simp
  show ?case
  proof (cases k)
    case 0
    with big show ?thesis by (simp add: st)
  next
    case (Suc j)
    with 1(3) st have "Suc j < length (spec_partition n (drop n xs))" by simp
    from 1(1) [OF _ 1(2) this] 1(2) ne Suc show ?thesis by (simp add: st)
  qed
qed

lemma spec_partition_last_batch:
  "0 < n \<Longrightarrow> xs \<noteq> [] \<Longrightarrow>
     length (last (spec_partition n xs)) = (if length xs mod n = 0 then n else length xs mod n)"
proof (induction n xs rule: spec_partition.induct)
  case (1 n xs)
  note st = spec_partition_step [OF 1(2) 1(3)]
  show ?case
  proof (cases "drop n xs = []")
    case True
    then have le: "length xs \<le> n" by simp
    have "length (last (spec_partition n xs)) = length xs"
      using True le by (simp add: st spec_partition_Nil)
    moreover have "(if length xs mod n = 0 then n else length xs mod n) = length xs"
      using le 1(3) by (cases "length xs = n") auto
    ultimately show ?thesis by simp
  next
    case False
    then have big: "n < length xs" by simp
    have r: "spec_partition n (drop n xs) \<noteq> []"
      using False 1(2) by (simp add: spec_partition_eq_Nil)
    have "length (last (spec_partition n xs)) = length (last (spec_partition n (drop n xs)))"
      using r by (simp add: st)
    also have "\<dots> = (if length (drop n xs) mod n = 0 then n else length (drop n xs) mod n)"
      using 1(1) 1(2) 1(3) False by simp
    also have "length (drop n xs) mod n = length xs mod n"
      using big by (simp add: le_mod_geq)
    finally show ?thesis .
  qed
qed

section \<open>Deleting files\<close>








section \<open>Expanding the input files\<close>









section \<open>The claims\<close>

subsection \<open>C1: the merged overall confidence\<close>




subsection \<open>C2: a batch size that is not positive\<close>

text \<open>
  C2. The code has no check of the batch size. The route passes -1 on unchanged (only 0
  and an absent value become 5), and with -1 or 0 the partition loop never ends on one
  page: no error is raised and the request never returns.
\<close>

theorem nonpositive_batch_size_never_returns:
  "request_batchSize (Some (- 1)) = - 1
   \<and> partition_loop [''/app/uploads/photo.png''] (- 1) 0 [] = None
   \<and> partition_loop [''/app/uploads/photo.png''] 0 0 [] = None
   \<and> extractDataWithOpenAI example_ext example_world [] [''/app/uploads/photo.png'']
        (Some (- 1)) None = None"
proof -
  have a: "request_batchSize (Some (- 1)) = - 1" by (simp add: request_batchSize_def)
  have b: "partition_loop [''/app/uploads/photo.png''] (- 1) 0 [] = None"
    by (rule partition_loop_diverges) simp_all
  have c: "partition_loop [''/app/uploads/photo.png''] 0 0 [] = None"
    by (rule partition_loop_diverges) simp_all
  have "snd (expand_files example_ext example_world [''/app/uploads/photo.png''] [] [])
          = ([''/app/uploads/photo.png''], [], None)" by code_simp
  then obtain w1 where "expand_files example_ext example_world [''/app/uploads/photo.png''] [] []
          = (w1, [''/app/uploads/photo.png''], [], None)"
    by (metis prod.collapse)
  then have "extractDataWithOpenAI example_ext example_world [] [''/app/uploads/photo.png'']
        (Some (- 1)) None = None"
    by (simp add: extractDataWithOpenAI_def try_body_def b)
  with a b c show ?thesis by simp
qed

subsection \<open>C3: what counts as a PDF\<close>

text \<open>
  C3, as the code has it. A file is classified as a PDF exactly when its extension is
  \<^verbatim>\<open>.pdf\<close> in any letter case and it can be read and its bytes begin with \<^verbatim>\<open>%PDF\<close>.
  So a file whose bytes do not begin with \<^verbatim>\<open>%PDF\<close> is never a PDF, and neither is a file
  with another extension, whatever its bytes.
\<close>

theorem isPdfFile_needs_extension_and_signature:
  "isPdfFile w filePath \<longleftrightarrow>
     toLowerCase (path_extname filePath) = ''.pdf''
     \<and> (\<exists>buffer. readFileSync w filePath = Some buffer \<and> take 4 buffer = ''%PDF'')"
  by (auto simp: isPdfFile_def split: option.splits)

text \<open>
  C3, counterexample to classification by content alone: the bytes of \<^verbatim>\<open>scan.png\<close> begin
  with \<^verbatim>\<open>%PDF\<close> and the file is not classified as a PDF.
\<close>

theorem isPdfFile_signature_only_counterexample:
  "readFileSync example_world ''/app/uploads/scan.png'' = Some ''%PDF-1.4 wrongly named''
   \<and> take 4 ''%PDF-1.4 wrongly named'' = ''%PDF''
   \<and> \<not> isPdfFile example_world ''/app/uploads/scan.png''"
  by code_simp

subsection \<open>C4: rasterizing a PDF\<close>




subsection \<open>C5: what the merge returns and what it leaves alone\<close>

text \<open>
  C5, as the code has it. The merge of a single result returns that very result (the
  same reference, hence the same content) and leaves the store as it is. Whenever the
  merge returns, every object that existed before is unchanged: the store afterwards
  extends the store before. For two or more results the returned object is newly
  allocated, and so are the values of its \<^verbatim>\<open>line_items\<close>, \<^verbatim>\<open>extraction_confidence\<close> and
  \<^verbatim>\<open>missing_fields\<close>; every other property is a deep copy of the first result's: it has
  the same content, and no object or array it is made of, at any depth, existed before.
  The new \<^verbatim>\<open>line_items\<close> array holds the very values that the inputs' arrays hold, so
  an item that is an object is shared with its input.
\<close>

theorem merge_same_object_and_inputs_unchanged:
  "mergeExtractedData h [r] = Inr (h, r)
   \<and> (mergeExtractedData h arr = Inr (h', m) \<longrightarrow>
        prefix h h'
        \<and> (2 \<le> length arr \<longrightarrow>
             (\<exists>a i e f. m = VRef a \<and> length h \<le> a \<and> a < length h'
                \<and> get_prop h' m ''line_items'' = Inr (Some (VRef i)) \<and> length h \<le> i
                \<and> get_prop h' m ''extraction_confidence'' = Inr (Some (VRef e))
                \<and> length h \<le> e
                \<and> get_prop h' m ''missing_fields'' = Inr (Some (VRef f)) \<and> length h \<le> f
                \<and> (\<forall>xss. list_all2 (has_line_items h) arr xss \<longrightarrow>
                       cell h' i = Some (HArr (concat xss))))
           \<and> (JSON_stringify h (arr ! 0) = Some (JObj kts)
                \<and> k \<noteq> ''line_items'' \<and> k \<noteq> ''extraction_confidence''
                \<and> k \<noteq> ''missing_fields'' \<longrightarrow>
                (\<exists>r. get_prop h' m k = Inr r
                   \<and> rel_option (\<lambda>v t. JSON_stringify h' v = Some t
                         \<and> (\<forall>n. set (walk_addrs n h' v) \<subseteq> {length h..<length h'}))
                       r (map_of kts k)))))"
proof (intro conjI impI)
  show "mergeExtractedData h [r] = Inr (h, r)"
    by (simp add: mergeExtractedData_def)
next
  assume "mergeExtractedData h arr = Inr (h', m)"
  then show "prefix h h'" by (rule merge_store_grows)
next
  assume "mergeExtractedData h arr = Inr (h', m)" and "2 \<le> length arr"
  then show "\<exists>a i e f. m = VRef a \<and> length h \<le> a \<and> a < length h'
                \<and> get_prop h' m ''line_items'' = Inr (Some (VRef i)) \<and> length h \<le> i
                \<and> get_prop h' m ''extraction_confidence'' = Inr (Some (VRef e))
                \<and> length h \<le> e
                \<and> get_prop h' m ''missing_fields'' = Inr (Some (VRef f)) \<and> length h \<le> f
                \<and> (\<forall>xss. list_all2 (has_line_items h) arr xss \<longrightarrow>
                       cell h' i = Some (HArr (concat xss)))"
    by (rule merge_reassigned_fields [rotated])
next
  assume e: "mergeExtractedData h arr = Inr (h', m)" and n: "2 \<le> length arr"
    and k: "JSON_stringify h (arr ! 0) = Some (JObj kts)
                \<and> k \<noteq> ''line_items'' \<and> k \<noteq> ''extraction_confidence''
                \<and> k \<noteq> ''missing_fields''"
  from k have k1: "JSON_stringify h (arr ! 0) = Some (JObj kts)"
    and k2: "k \<noteq> ''line_items''" and k3: "k \<noteq> ''extraction_confidence''"
    and k4: "k \<noteq> ''missing_fields''" by blast+
  show "\<exists>r. get_prop h' m k = Inr r
                   \<and> rel_option (\<lambda>v t. JSON_stringify h' v = Some t
                         \<and> (\<forall>n. set (walk_addrs n h' v) \<subseteq> {length h..<length h'}))
                       r (map_of kts k)"
    by (rule merge_copied_field [OF n e k1 k2 k3 k4])
qed

text \<open>
  C5, witness: the merge of the first two sample results returns an object at an
  address past the 13 cells of the sample store, which it extends; its \<^verbatim>\<open>shipper\<close> is a
  copy made of new cells with the content of the first result's; its line items are the
  references 1 and 5 of the inputs.
\<close>

theorem merge_same_object_and_inputs_unchanged_witness:
  "succeeds (mergeExtractedData example_store [VRef 4, VRef 8])
   \<and> 2 \<le> length [VRef 4, VRef 8]
   \<and> mergeExtractedData example_store [VRef 4] = Inr (example_store, VRef 4)
   \<and> prefix example_store (fst (projr (mergeExtractedData example_store [VRef 4, VRef 8])))
   \<and> (\<exists>a. snd (projr (mergeExtractedData example_store [VRef 4, VRef 8])) = VRef a
          \<and> length example_store \<le> a)
   \<and> list_all2 (has_line_items example_store) [VRef 4, VRef 8] [[VRef 1], [VRef 5]]
   \<and> (\<exists>i. get_prop (fst (projr (mergeExtractedData example_store [VRef 4, VRef 8])))
               (snd (projr (mergeExtractedData example_store [VRef 4, VRef 8]))) ''line_items''
             = Inr (Some (VRef i))
          \<and> length example_store \<le> i
          \<and> cell (fst (projr (mergeExtractedData example_store [VRef 4, VRef 8]))) i
             = Some (HArr [VRef 1, VRef 5]))
   \<and> JSON_stringify example_store ([VRef 4, VRef 8] ! 0) = Some example_batch1
   \<and> (\<exists>v. get_prop (fst (projr (mergeExtractedData example_store [VRef 4, VRef 8])))
               (snd (projr (mergeExtractedData example_store [VRef 4, VRef 8]))) ''shipper''
             = Inr (Some v)
          \<and> JSON_stringify (fst (projr (mergeExtractedData example_store [VRef 4, VRef 8]))) v
             = Some (JObj [(''name'', JStr ''ACME'')])
          \<and> set (walk_addrs 20
                   (fst (projr (mergeExtractedData example_store [VRef 4, VRef 8]))) v)
             \<subseteq> {length example_store..<
                   length (fst (projr (mergeExtractedData example_store [VRef 4, VRef 8])))})"
proof -
  have n: "2 \<le> length [VRef 4, VRef 8]" by simp
  have s: "succeeds (mergeExtractedData example_store [VRef 4, VRef 8])" by code_simp
  have li: "list_all2 (has_line_items example_store) [VRef 4, VRef 8] [[VRef 1], [VRef 5]]"
    by code_simp
  have b: "JSON_stringify example_store ([VRef 4, VRef 8] ! 0) = Some (JObj
     [(''shipper'', JObj [(''name'', JStr ''ACME'')]),
      (''line_items'', JArr [JObj [(''line_no'', JNum 1)]]),
      (''extraction_confidence'', JObj [(''overall'', JNull), (''header'', JNum (9 / 10))])])"
    by code_simp
  from s obtain h' m where e: "mergeExtractedData example_store [VRef 4, VRef 8] = Inr (h', m)"
    by (elim succeedsE) (metis prod.exhaust)
  note t = merge_same_object_and_inputs_unchanged
      [of example_store "VRef 4" "[VRef 4, VRef 8]" h' m
        "[(''shipper'', JObj [(''name'', JStr ''ACME'')]),
      (''line_items'', JArr [JObj [(''line_no'', JNum 1)]]),
      (''extraction_confidence'', JObj [(''overall'', JNull), (''header'', JNum (9 / 10))])]"
        "''shipper''"]
  from t have t1: "mergeExtractedData example_store [VRef 4] = Inr (example_store, VRef 4)"
    by (rule conjunct1)
  from t e have t2: "prefix example_store h'" by blast
  from t e n obtain a i where
    a: "m = VRef a" "length example_store \<le> a"
    and i: "get_prop h' m ''line_items'' = Inr (Some (VRef i))" "length example_store \<le> i"
    and c: "\<forall>xss. list_all2 (has_line_items example_store) [VRef 4, VRef 8] xss \<longrightarrow>
                       cell h' i = Some (HArr (concat xss))"
    by blast
  from c li have c': "cell h' i = Some (HArr [VRef 1, VRef 5])" by fastforce
  have "''shipper'' \<noteq> ''line_items''" "''shipper'' \<noteq> ''extraction_confidence''"
    "''shipper'' \<noteq> ''missing_fields''" by simp_all
  with t e n b have "\<exists>r. get_prop h' m ''shipper'' = Inr r
       \<and> rel_option (\<lambda>v t. JSON_stringify h' v = Some t
             \<and> (\<forall>n. set (walk_addrs n h' v) \<subseteq> {length example_store..<length h'}))
           r (map_of [(''shipper'', JObj [(''name'', JStr ''ACME'')]),
      (''line_items'', JArr [JObj [(''line_no'', JNum 1)]]),
      (''extraction_confidence'', JObj [(''overall'', JNull), (''header'', JNum (9 / 10))])]
             ''shipper'')"
    by blast
  then obtain v where v: "get_prop h' m ''shipper'' = Inr (Some v)"
    "JSON_stringify h' v = Some (JObj [(''name'', JStr ''ACME'')])"
    "set (walk_addrs 20 h' v) \<subseteq> {length example_store..<length h'}"
    by (auto simp: option_rel_Some2)
  from s n t1 t2 a i c' li b v show ?thesis
    by (simp add: e example_batch1_def)
qed

text \<open>
  C5, counterexample to the independent copy. The merge of the single result at address
  4 returns the reference 4 itself. In the merge of two results the merged line items
  are the references 1 and 5: the first is the very object that the \<^verbatim>\<open>line_items\<close> array
  of the first input holds.
\<close>

theorem merge_independent_copy_counterexample:
  "mergeExtractedData example_store [VRef 4] = Inr (example_store, VRef 4)
   \<and> array_elems example_store (Some (VRef 2)) = Some [VRef 1]
   \<and> lookup_path example_store (VRef 4) [''line_items''] = Inr (Some (VRef 2))
   \<and> merged_line_items example_store [VRef 4, VRef 8] = Some [VRef 1, VRef 5]"
  by code_simp

subsection \<open>C6: the partition into batches\<close>

text \<open>
  C6. For every page list and every positive batch size the partition loop returns;
  the batches concatenated in order are the page list; there are
  \<open>\<lceil>length pages / batchSize\<rceil>\<close> of them; every batch but the last has exactly
  \<open>batchSize\<close> pages; and the last has \<open>length pages mod batchSize\<close> pages, or
  \<open>batchSize\<close> when that is 0.
\<close>

theorem partition_contiguous_batches:
  assumes "0 < batchSize"
  shows "\<exists>batches. partition_loop pages batchSize 0 [] = Some batches
           \<and> concat batches = pages
           \<and> int (length batches) = \<lceil>rat_of_nat (length pages) / rat_of_int batchSize\<rceil>
           \<and> (\<forall>k. Suc k < length batches \<longrightarrow> length (batches ! k) = nat batchSize)
           \<and> (batches \<noteq> [] \<longrightarrow>
                length (last batches) =
                  (if length pages mod nat batchSize = 0 then nat batchSize
                   else length pages mod nat batchSize))"
proof -
  let ?n = "nat batchSize"
  let ?bs = "spec_partition ?n pages"
  from assms have n: "0 < ?n" by simp
  have l: "partition_loop pages batchSize 0 [] = Some ?bs"
    using partition_loop_spec [OF assms, of 0 pages "[]"] by simp
  have c: "concat ?bs = pages" by (rule concat_spec_partition [OF n])
  have ceil: "int (length ?bs) = \<lceil>rat_of_nat (length pages) / rat_of_int batchSize\<rceil>"
  proof (cases "pages = []")
    case True
    then show ?thesis by (simp add: spec_partition_Nil)
  next
    case False
    from spec_partition_count_bounds [OF n, of pages] False have
      up: "length pages \<le> length ?bs * ?n" and lo: "(length ?bs - 1) * ?n < length pages"
      by simp_all
    from False n have pos: "0 < length ?bs" by (simp add: spec_partition_eq_Nil)
    have b: "rat_of_int batchSize = rat_of_nat ?n" using assms by simp
    have bpos: "0 < rat_of_nat ?n" using n by simp
    have "rat_of_nat (length pages) \<le> rat_of_nat (length ?bs * ?n)"
      using up by (simp only: of_nat_le_iff)
    then have u: "rat_of_nat (length pages) / rat_of_nat ?n \<le> rat_of_int (int (length ?bs))"
      using bpos by (simp add: pos_divide_le_eq)
    have "rat_of_nat ((length ?bs - 1) * ?n) < rat_of_nat (length pages)"
      using lo by (simp only: of_nat_less_iff)
    then have "rat_of_nat (length ?bs - 1) < rat_of_nat (length pages) / rat_of_nat ?n"
      using bpos by (simp add: pos_less_divide_eq)
    moreover have "rat_of_nat (length ?bs - 1) = rat_of_int (int (length ?bs)) - 1"
    proof -
      from pos obtain m where m: "length ?bs = Suc m" by (cases "length ?bs") auto
      show ?thesis unfolding m by simp
    qed
    ultimately have l: "rat_of_int (int (length ?bs)) - 1
        < rat_of_nat (length pages) / rat_of_nat ?n"
      by simp
    have "\<lceil>rat_of_nat (length pages) / rat_of_nat ?n\<rceil> = int (length ?bs)"
      by (rule ceiling_unique [OF l u])
    then show ?thesis by (simp only: b)
  qed
  have full: "\<forall>k. Suc k < length ?bs \<longrightarrow> length (?bs ! k) = ?n"
    using spec_partition_full_batches [OF n] by blast
  have lst: "?bs \<noteq> [] \<longrightarrow> length (last ?bs) =
      (if length pages mod ?n = 0 then ?n else length pages mod ?n)"
    using spec_partition_last_batch [OF n] spec_partition_eq_Nil [OF n] by blast
  from l c ceil full lst show ?thesis by blast
qed

text \<open>C6, witness: three pages in batches of two.\<close>

theorem partition_contiguous_batches_witness:
  "(0 :: int) < 2
   \<and> partition_loop [''p1'', ''p2'', ''p3''] 2 0 [] = Some [[''p1'', ''p2''], [''p3'']]
   \<and> concat [[''p1'', ''p2''], [''p3'']] = [''p1'', ''p2'', ''p3'']
   \<and> int (length [[''p1'', ''p2''], [''p3'']]) = \<lceil>rat_of_nat 3 / rat_of_int 2\<rceil>"
proof -
  have e: "partition_loop [''p1'', ''p2'', ''p3''] 2 0 [] = Some [[''p1'', ''p2''], [''p3'']]"
    by code_simp
  from partition_contiguous_batches [of 2 "[''p1'', ''p2'', ''p3'']"] e
  show ?thesis by auto
qed

subsection \<open>C7: the merged line items\<close>



subsection \<open>C8: cleaning up the temporary page files\<close>




subsection \<open>C9: the fields the merge does not recompute\<close>

text \<open>
  C9, as the code has it. For two or more results, every top-level property of the
  merged result other than \<^verbatim>\<open>line_items\<close>, \<^verbatim>\<open>extraction_confidence\<close> and
  \<^verbatim>\<open>missing_fields\<close> is present exactly when the first result has it, with the same
  content, nested objects included. The merged \<^verbatim>\<open>extraction_confidence\<close> is a new object
  with the two properties \<^verbatim>\<open>overall\<close> and \<^verbatim>\<open>line_items\<close> and no other.
\<close>

theorem merge_other_fields_from_first:
  assumes "2 \<le> length arr"
    and "mergeExtractedData h arr = Inr (h', m)"
    and "JSON_stringify h (arr ! 0) = Some (JObj kts)"
    and "k \<noteq> ''line_items''" "k \<noteq> ''extraction_confidence''" "k \<noteq> ''missing_fields''"
  shows "(\<exists>r. get_prop h' m k = Inr r
              \<and> rel_option (\<lambda>v t. JSON_stringify h' v = Some t) r (map_of kts k))
       \<and> (\<exists>e x y. get_prop h' m ''extraction_confidence'' = Inr (Some (VRef e))
              \<and> cell h' e = Some (HObj [(''overall'', x), (''line_items'', y)]))"
proof (rule merge_anatomy [OF assms(1,2)], goal_cases)
  case (1 kts' h0 fs items tot allMissing)
  note doc = 1(1) and pp = 1(2) and m = 1(4) and h' = 1(8)
  from doc assms(3) have kts: "kts' = kts" by simp
  have rd: "those (map (\<lambda>(k, v). map_option (Pair k) (read_json (length h0 - length h) h0 v)) fs)
       = Some kts"
    using parse_read(3) [OF pp] kts by simp
  have rel0: "rel_option (\<lambda>v t. read_json (length h0 - length h) h0 v = Some t)
      (map_of fs k) (map_of kts k)"
    by (rule those_map_of [OF rd])
  have pre': "prefix h0 h'" by (simp add: h')
  have len: "length h0 - length h \<le> length h'" by (simp add: h')
  have rel: "rel_option (\<lambda>v t. JSON_stringify h' v = Some t) (map_of fs k) (map_of kts k)"
    using rel0
  proof (rule option.rel_mono_strong)
    fix v t
    assume "read_json (length h0 - length h) h0 v = Some t"
    then show "JSON_stringify h' v = Some t"
      unfolding JSON_stringify_def by (rule read_json_mono [OF _ len pre'])
  qed
  have g: "get_prop h' m k = Inr (map_of fs k)"
    using assms(4-6) by (simp add: m h' get_prop_def cell_def nth_append update_conv')
  have c: "get_prop h' m ''extraction_confidence'' = Inr (Some (VRef (Suc (Suc (length h0)))))"
    by (simp add: m h' get_prop_def cell_def nth_append update_conv')
  have d: "cell h' (Suc (Suc (length h0))) = Some (HObj [(''overall'',
      VNum (tot / of_nat (length arr))), (''line_items'', VNum (of_nat (length items)))])"
    by (simp add: h' cell_def nth_append confidence_obj_def)
  from g rel c d show ?case by blast
qed

text \<open>C9, witness: the \<^verbatim>\<open>shipper\<close> object of the first sample result.\<close>

theorem merge_other_fields_from_first_witness:
  "2 \<le> length [VRef 4, VRef 8]
   \<and> JSON_stringify example_store ([VRef 4, VRef 8] ! 0) = Some example_batch1
   \<and> ''shipper'' \<noteq> ''line_items'' \<and> ''shipper'' \<noteq> ''extraction_confidence''
   \<and> ''shipper'' \<noteq> ''missing_fields''
   \<and> succeeds (mergeExtractedData example_store [VRef 4, VRef 8])
   \<and> (\<exists>v. get_prop (fst (projr (mergeExtractedData example_store [VRef 4, VRef 8])))
               (snd (projr (mergeExtractedData example_store [VRef 4, VRef 8]))) ''shipper''
             = Inr (Some v)
          \<and> JSON_stringify (fst (projr (mergeExtractedData example_store [VRef 4, VRef 8]))) v
             = Some (JObj [(''name'', JStr ''ACME'')]))"
proof -
  have a: "2 \<le> length [VRef 4, VRef 8]" by simp
  have b: "JSON_stringify example_store ([VRef 4, VRef 8] ! 0) = Some (JObj
     [(''shipper'', JObj [(''name'', JStr ''ACME'')]),
      (''line_items'', JArr [JObj [(''line_no'', JNum 1)]]),
      (''extraction_confidence'', JObj [(''overall'', JNull), (''header'', JNum (9 / 10))])])"
    by code_simp
  have s: "succeeds (mergeExtractedData example_store [VRef 4, VRef 8])" by code_simp
  then obtain h' m where e: "mergeExtractedData example_store [VRef 4, VRef 8] = Inr (h', m)"
    by (elim succeedsE) (metis prod.exhaust)
  have "\<exists>v. get_prop h' m ''shipper'' = Inr (Some v)
            \<and> JSON_stringify h' v = Some (JObj [(''name'', JStr ''ACME'')])"
    using merge_other_fields_from_first [OF a e b, of "''shipper''"]
    by (auto simp: option_rel_Some2)
  with a b s show ?thesis by (simp add: example_batch1_def e)
qed

text \<open>
  C9, counterexample to the retention of every other field: the first result has
  \<^verbatim>\<open>extraction_confidence.header\<close> = 0.9, and the merged result has no such field.
\<close>

theorem merge_other_fields_counterexample:
  "lookup_path example_store (VRef 4) [''extraction_confidence'', ''header'']
     = Inr (Some (VNum (9 / 10)))
   \<and> merged_path example_store [VRef 4, VRef 8] [''extraction_confidence'', ''header'']
       = Inr None"
  by code_simp

subsection \<open>C10: merging no result\<close>

text \<open>
  C10. Merging an empty list of results returns \<^verbatim>\<open>null\<close>: no error is raised, no
  object is created and the store is left as it was.
\<close>

theorem merge_empty_returns_null:
  "mergeExtractedData h [] = Inr (h, VNull)"
  by (simp add: mergeExtractedData_def)

end
